theory Spec2Isabelle
  imports Main "HOL-Library.Word" "HOL-Library.AList" "HOL-Library.Sublist"
begin

unbundle bit_operations_syntax

section \<open>One-way folder synchronisation (sync\_folders.py)\<close>

text \<open>
  The program mirrors a source directory tree into a replica directory tree: an additive
  pass walks the source and creates or copies what is missing or different, a subtractive
  pass walks the replica bottom-up and removes what has no counterpart in the source.
  This theory embeds the two passes, the digest helper and the driver loop as functions on
  an explicit file-system state, and proves the properties stated about them.
\<close>

subsection \<open>SHA-256 (the digest computed by hashlib)\<close>

type_synonym byte = "8 word"
type_synonym bytes = "byte list"
type_synonym w32 = "32 word"

text \<open>The round constants and the initial hash value of FIPS 180-4, in decimal.\<close>

definition K256 :: "w32 list" where
  "K256 =
    [1116352408, 1899447441, 3049323471, 3921009573, 961987163, 1508970993, 2453635748, 2870763221,
     3624381080, 310598401, 607225278, 1426881987, 1925078388, 2162078206, 2614888103, 3248222580,
     3835390401, 4022224774, 264347078, 604807628, 770255983, 1249150122, 1555081692, 1996064986,
     2554220882, 2821834349, 2952996808, 3210313671, 3336571891, 3584528711, 113926993, 338241895,
     666307205, 773529912, 1294757372, 1396182291, 1695183700, 1986661051, 2177026350, 2456956037,
     2730485921, 2820302411, 3259730800, 3345764771, 3516065817, 3600352804, 4094571909, 275423344,
     430227734, 506948616, 659060556, 883997877, 958139571, 1322822218, 1537002063, 1747873779,
     1955562222, 2024104815, 2227730452, 2361852424, 2428436474, 2756734187, 3204031479, 3329325298]"

definition H256 :: "w32 list" where
  "H256 = [1779033703, 3144134277, 1013904242, 2773480762,
           1359893119, 2600822924, 528734635, 1541459225]"

definition Ch :: "w32 \<Rightarrow> w32 \<Rightarrow> w32 \<Rightarrow> w32" where
  "Ch x y z = (x AND y) XOR (NOT x AND z)"

definition Maj :: "w32 \<Rightarrow> w32 \<Rightarrow> w32 \<Rightarrow> w32" where
  "Maj x y z = (x AND y) XOR (x AND z) XOR (y AND z)"

definition Sigma0 :: "w32 \<Rightarrow> w32" where
  "Sigma0 x = word_rotr 2 x XOR word_rotr 13 x XOR word_rotr 22 x"

definition Sigma1 :: "w32 \<Rightarrow> w32" where
  "Sigma1 x = word_rotr 6 x XOR word_rotr 11 x XOR word_rotr 25 x"

definition sigma0 :: "w32 \<Rightarrow> w32" where
  "sigma0 x = word_rotr 7 x XOR word_rotr 18 x XOR drop_bit 3 x"

definition sigma1 :: "w32 \<Rightarrow> w32" where
  "sigma1 x = word_rotr 17 x XOR word_rotr 19 x XOR drop_bit 10 x"

text \<open>Big-endian packing of four bytes, and of a 64-byte block into sixteen words.\<close>

definition be32 :: "byte \<Rightarrow> byte \<Rightarrow> byte \<Rightarrow> byte \<Rightarrow> w32" where
  "be32 a b c d = push_bit 24 (ucast a) OR push_bit 16 (ucast b) OR push_bit 8 (ucast c) OR ucast d"

fun block_words :: "bytes \<Rightarrow> w32 list" where
  "block_words (a # b # c # d # bs) = be32 a b c d # block_words bs"
| "block_words _ = []"

text \<open>
  The message schedule: \<open>extend n ws\<close> holds the schedule newest word first and appends
  \<open>n\<close> further words, each computed from the words 2, 7, 15 and 16 places back.
\<close>

fun extend :: "nat \<Rightarrow> w32 list \<Rightarrow> w32 list" where
  "extend 0 ws = ws"
| "extend (Suc n) ws =
     extend n ((sigma1 (ws ! 1) + ws ! 6 + sigma0 (ws ! 14) + ws ! 15) # ws)"

definition schedule :: "bytes \<Rightarrow> w32 list" where
  "schedule block = rev (extend 48 (rev (block_words block)))"

type_synonym hstate = "w32 \<times> w32 \<times> w32 \<times> w32 \<times> w32 \<times> w32 \<times> w32 \<times> w32"

definition round256 :: "hstate \<Rightarrow> w32 \<times> w32 \<Rightarrow> hstate" where
  "round256 s kw =
     (case s of (a, b, c, d, e, f, g, h) \<Rightarrow>
        let T1 = h + Sigma1 e + Ch e f g + fst kw + snd kw;
            T2 = Sigma0 a + Maj a b c
        in (T1 + T2, a, b, c, d + T1, e, f, g))"

definition compress :: "hstate \<Rightarrow> bytes \<Rightarrow> hstate" where
  "compress s block =
     (case s of (a, b, c, d, e, f, g, h) \<Rightarrow>
        case foldl round256 s (zip K256 (schedule block)) of
          (a', b', c', d', e', f', g', h') \<Rightarrow>
            (a + a', b + b', c + c', d + d', e + e', f + f', g + g', h + h'))"

text \<open>Padding: a one bit, zeros up to 56 modulo 64 bytes, and the bit length in 64 bits.\<close>

definition be64 :: "64 word \<Rightarrow> bytes" where
  "be64 n = map (\<lambda>i. ucast (drop_bit (8 * (7 - i)) n)) [0 ..< 8]"

definition pad :: "bytes \<Rightarrow> bytes" where
  "pad m = m @ [0x80] @ replicate ((119 - length m mod 64) mod 64) 0
             @ be64 (word_of_nat (8 * length m))"

fun blocks :: "nat \<Rightarrow> bytes \<Rightarrow> bytes list" where
  "blocks 0 m = []"
| "blocks (Suc n) m = take 64 m # blocks n (drop 64 m)"

definition sha256 :: "bytes \<Rightarrow> hstate" where
  "sha256 m =
     (let p = pad m
      in foldl compress
           (H256 ! 0, H256 ! 1, H256 ! 2, H256 ! 3, H256 ! 4, H256 ! 5, H256 ! 6, H256 ! 7)
           (blocks (length p div 64) p))"

definition hexchar :: "nat \<Rightarrow> char" where
  "hexchar n = ''0123456789abcdef'' ! (n mod 16)"

definition hex32 :: "w32 \<Rightarrow> string" where
  "hex32 w = map (\<lambda>i. hexchar (unat (drop_bit (4 * (7 - i)) w))) [0 ..< 8]"

definition sha256_hex :: "bytes \<Rightarrow> string" where
  "sha256_hex m =
     (case sha256 m of (a, b, c, d, e, f, g, h) \<Rightarrow>
        hex32 a @ hex32 b @ hex32 c @ hex32 d @ hex32 e @ hex32 f @ hex32 g @ hex32 h)"

subsection \<open>The file system\<close>

text \<open>
  A path is the list of its components relative to the root of its tree (the empty list
  is the root itself, which \<open>os.path.relpath\<close> renders as a dot). A file carries its
  content and the metadata that \<open>shutil.copy2\<close> carries over (modification time and
  permission bits); a directory lists its entries in the order \<open>os.scandir\<close> reports
  them. Symbolic links are outside the model.
\<close>

type_synonym path = "string list"
type_synonym meta = "int \<times> nat"

datatype node = File bytes meta | Dir "(string \<times> node) list"

datatype entry = KFile bytes meta | KDir

fun kind :: "node \<Rightarrow> entry" where
  "kind (File c m) = KFile c m"
| "kind (Dir es) = KDir"

fun lookup :: "node \<Rightarrow> path \<Rightarrow> node option" where
  "lookup t [] = Some t"
| "lookup (File c m) (x # p) = None"
| "lookup (Dir es) (x # p) = (case map_of es x of None \<Rightarrow> None | Some c \<Rightarrow> lookup c p)"

definition entry_at :: "node \<Rightarrow> path \<Rightarrow> entry option" where
  "entry_at t p = map_option kind (lookup t p)"

definition path_exists :: "node \<Rightarrow> path \<Rightarrow> bool" where
  \<comment> \<open>os.path.exists\<close>
  "path_exists t p = (lookup t p \<noteq> None)"

definition isdir :: "node \<Rightarrow> path \<Rightarrow> bool" where
  \<comment> \<open>os.path.isdir\<close>
  "isdir t p = (entry_at t p = Some KDir)"

definition isfile :: "node \<Rightarrow> path \<Rightarrow> bool" where
  \<comment> \<open>os.path.isfile\<close>
  "isfile t p = (case entry_at t p of Some (KFile c m) \<Rightarrow> True | _ \<Rightarrow> False)"

text \<open>Well-formed trees: no directory lists a name twice.\<close>

fun wf_tree :: "node \<Rightarrow> bool" and wf_entries :: "(string \<times> node) list \<Rightarrow> bool" where
  "wf_tree (File c m) = True"
| "wf_tree (Dir es) = (distinct (map fst es) \<and> wf_entries es)"
| "wf_entries [] = True"
| "wf_entries (e # es) = (wf_tree (snd e) \<and> wf_entries es)"

fun is_Dir :: "node \<Rightarrow> bool" where
  "is_Dir (Dir es) = True"
| "is_Dir (File c m) = False"

definition dirnames :: "(string \<times> node) list \<Rightarrow> string list" where
  "dirnames es = map fst (filter (\<lambda>e. is_Dir (snd e)) es)"

definition filenames :: "(string \<times> node) list \<Rightarrow> string list" where
  "filenames es = map fst (filter (\<lambda>e. \<not> is_Dir (snd e)) es)"

text \<open>
  The files and the directories of a tree, as lists of paths (the root directory is
  the empty path).
\<close>

fun file_paths :: "path \<Rightarrow> node \<Rightarrow> path list"
  and file_paths_entries :: "path \<Rightarrow> (string \<times> node) list \<Rightarrow> path list" where
  "file_paths base (File c m) = [base]"
| "file_paths base (Dir es) = file_paths_entries base es"
| "file_paths_entries base [] = []"
| "file_paths_entries base (e # es) = file_paths (base @ [fst e]) (snd e) @ file_paths_entries base es"

fun dir_paths :: "path \<Rightarrow> node \<Rightarrow> path list"
  and dir_paths_entries :: "path \<Rightarrow> (string \<times> node) list \<Rightarrow> path list" where
  "dir_paths base (File c m) = []"
| "dir_paths base (Dir es) = base # dir_paths_entries base es"
| "dir_paths_entries base [] = []"
| "dir_paths_entries base (e # es) = dir_paths (base @ [fst e]) (snd e) @ dir_paths_entries base es"

definition fingerprint_at :: "node \<Rightarrow> path \<Rightarrow> string option" where
  \<comment> \<open>the content fingerprint of the file at a path, if there is a file\<close>
  "fingerprint_at t p = (case lookup t p of Some (File c m) \<Rightarrow> Some (sha256_hex c) | _ \<Rightarrow> None)"

subsection \<open>Exceptions and the operations of os and shutil\<close>

datatype error =
    FileExistsError | FileNotFoundError | NotADirectoryError | IsADirectoryError
  | PermissionError | RecursionError | ValueError | EOFError

text \<open>
  \<open>os.makedirs p\<close> (with \<open>exist_ok\<close> unset): creates the directory and every missing
  ancestor; fails when the path exists or when an ancestor is a regular file.
\<close>

fun mk_chain :: "path \<Rightarrow> node" where
  "mk_chain [] = Dir []"
| "mk_chain (x # p) = Dir [(x, mk_chain p)]"

fun makedirs :: "path \<Rightarrow> node \<Rightarrow> error + node" where
  "makedirs [] t = Inl FileExistsError"
| "makedirs (x # p) (File c m) = Inl NotADirectoryError"
| "makedirs (x # p) (Dir es) =
     (case map_of es x of
        None \<Rightarrow> Inr (Dir (es @ [(x, mk_chain p)]))
      | Some c \<Rightarrow>
          (case makedirs p c of
             Inl e \<Rightarrow> Inl e
           | Inr c' \<Rightarrow> Inr (Dir (AList.update x c' es))))"

text \<open>
  Opening a path for writing and storing content and metadata there (the copy and
  \<open>copystat\<close> steps of \<open>shutil.copy2\<close>): the parent directory must exist, and the
  target must not be a directory.
\<close>

fun write_file :: "path \<Rightarrow> bytes \<Rightarrow> meta \<Rightarrow> node \<Rightarrow> error + node" where
  "write_file [] c m t = Inl IsADirectoryError"
| "write_file (x # p) c m (File c0 m0) = Inl NotADirectoryError"
| "write_file [x] c m (Dir es) =
     (case map_of es x of
        Some (Dir ds) \<Rightarrow> Inl IsADirectoryError
      | _ \<Rightarrow> Inr (Dir (AList.update x (File c m) es)))"
| "write_file (x # y # p) c m (Dir es) =
     (case map_of es x of
        None \<Rightarrow> Inl FileNotFoundError
      | Some d \<Rightarrow>
          (case write_file (y # p) c m d of
             Inl e \<Rightarrow> Inl e
           | Inr d' \<Rightarrow> Inr (Dir (AList.update x d' es))))"

text \<open>Unlinking whatever is at a path (a file, or a directory with all it holds).\<close>

fun delete_at :: "path \<Rightarrow> node \<Rightarrow> node option" where
  "delete_at [] t = None"
| "delete_at (x # p) (File c m) = None"
| "delete_at [x] (Dir es) =
     (case map_of es x of None \<Rightarrow> None | Some c \<Rightarrow> Some (Dir (AList.delete x es)))"
| "delete_at (x # y # p) (Dir es) =
     (case map_of es x of
        None \<Rightarrow> None
      | Some d \<Rightarrow>
          (case delete_at (y # p) d of
             None \<Rightarrow> None
           | Some d' \<Rightarrow> Some (Dir (AList.update x d' es))))"

subsection \<open>The program state and its environment\<close>

datatype root = Source | Replica

datatype level = INFO | WARNING | ERROR

text \<open>One constructor for each message text the program formats.\<close>

datatype message =
    Error_calculating_SHA256 root path error
  | Directory_created path
  | Error_creating path error
  | File_copied path
  | Error_copying path path error
  | Unknown_error_adding error
  | File_removed path
  | Error_removing path error
  | Directory_removed path
  | Unknown_error_removing error
  | Starting_synchronization
  | No_files_changed
  | Synchronization_completed int
  | Program_interrupted
  | Unexpected_error error
  | Validation_failed

text \<open>
  The state holds the two trees, the global change counter, the log file (level and
  message of each record) and the standard output.
\<close>

record world =
  source :: node
  replica :: node
  count :: int
  log :: "(level \<times> message) list"
  stdout :: "message list"

text \<open>
  The environment decides which operations fail for reasons that the trees do not
  show (permissions, I/O errors). A failing operation raises before it changes anything.
  \<open>scandir_fails\<close> is an \<open>OSError\<close> of \<open>os.scandir\<close> inside \<open>os.walk\<close>;
  \<open>walk_raises\<close> is an exception that leaves the \<open>os.walk\<close> generator when it
  reaches a directory (a \<open>RecursionError\<close> on a very deep tree, for instance).
\<close>

record env =
  scandir_fails :: "root \<Rightarrow> path \<Rightarrow> bool"
  walk_raises :: "root \<Rightarrow> path \<Rightarrow> bool"
  read_fails :: "root \<Rightarrow> path \<Rightarrow> bool"
  makedirs_fails :: "path \<Rightarrow> bool"
  copy2_fails :: "path \<Rightarrow> bool"
  remove_fails :: "path \<Rightarrow> bool"
  rmtree_fails :: "path \<Rightarrow> bool"

definition no_faults :: env where
  "no_faults =
     \<lparr> scandir_fails = (\<lambda>r p. False), walk_raises = (\<lambda>r p. False),
       read_fails = (\<lambda>r p. False), makedirs_fails = (\<lambda>p. False),
       copy2_fails = (\<lambda>p. False), remove_fails = (\<lambda>p. False),
       rmtree_fails = (\<lambda>p. False) \<rparr>"

definition tree :: "world \<Rightarrow> root \<Rightarrow> node" where
  "tree w r = (case r of Source \<Rightarrow> source w | Replica \<Rightarrow> replica w)"

subsection \<open>response\_message\<close>

definition logging :: "level \<Rightarrow> message \<Rightarrow> world \<Rightarrow> world" where
  "logging lv message w = w\<lparr>log := log w @ [(lv, message)]\<rparr>"

definition print :: "message \<Rightarrow> world \<Rightarrow> world" where
  "print message w = w\<lparr>stdout := stdout w @ [message]\<rparr>"

definition response_message :: "message \<Rightarrow> string \<Rightarrow> world \<Rightarrow> world" where
  "response_message message type w =
     print message
       (if type = ''info'' then logging INFO message w
        else if type = ''warning'' then logging WARNING message w
        else if type = ''error'' then logging ERROR message w
        else logging INFO message w)"

subsection \<open>calculate\_sha256\<close>

text \<open>
  The hash object of hashlib is modelled by the bytes fed to it so far: \<open>update\<close>
  appends a chunk, \<open>hexdigest\<close> is the SHA-256 of everything fed, in hexadecimal.
\<close>

definition hashlib_sha256 :: bytes where
  "hashlib_sha256 = []"

definition update :: "bytes \<Rightarrow> bytes \<Rightarrow> bytes" where
  "update h chunk = h @ chunk"

definition hexdigest :: "bytes \<Rightarrow> string" where
  "hexdigest h = sha256_hex h"

text \<open>
  Opening a file for reading: the path must be a regular file, and the environment must
  let it be read.
\<close>

definition open_rb :: "env \<Rightarrow> root \<Rightarrow> path \<Rightarrow> world \<Rightarrow> error + bytes" where
  "open_rb env r p w =
     (case lookup (tree w r) p of
        None \<Rightarrow> Inl FileNotFoundError
      | Some (Dir es) \<Rightarrow> Inl IsADirectoryError
      | Some (File c m) \<Rightarrow> if read_fails env r p then Inl PermissionError else Inr c)"

text \<open>
  The loop \<open>for chunk in iter(lambda: file.read(4096), b"")\<close>: \<open>file\<close> is what remains
  to be read.
\<close>

function read_loop :: "bytes \<Rightarrow> bytes \<Rightarrow> bytes" where
  "read_loop file hash_sha256 =
     (let chunk = take 4096 file
      in if chunk = [] then hash_sha256
         else read_loop (drop 4096 file) (update hash_sha256 chunk))"
  by pat_completeness auto
termination
  by (relation "measure (\<lambda>(file, h). length file)") auto

declare read_loop.simps [simp del]

text \<open>The result is \<open>None\<close> where the Python function falls off its \<open>except\<close> branch.\<close>

definition calculate_sha256 :: "env \<Rightarrow> root \<Rightarrow> path \<Rightarrow> world \<Rightarrow> string option \<times> world" where
  "calculate_sha256 env r file_path w =
     (case open_rb env r file_path w of
        Inr file \<Rightarrow> (Some (hexdigest (read_loop file hashlib_sha256)), w)
      | Inl e \<Rightarrow> (None, response_message (Error_calculating_SHA256 r file_path e) ''error'' w))"

subsection \<open>os.walk\<close>

text \<open>
  \<open>os.walk\<close> yields, for each directory it can list, the directory's path, the names
  of its subdirectories and the names of its other entries; top-down it yields a directory
  before its subdirectories, bottom-up after them. A directory that cannot be listed is
  skipped with everything below it, silently (no \<open>onerror\<close> is given).
\<close>

type_synonym walk_item = "path \<times> string list \<times> string list"

fun os_walk :: "(path \<Rightarrow> bool) \<Rightarrow> bool \<Rightarrow> path \<Rightarrow> node \<Rightarrow> walk_item list"
  and walk_entries :: "(path \<Rightarrow> bool) \<Rightarrow> bool \<Rightarrow> path \<Rightarrow> (string \<times> node) list \<Rightarrow> walk_item list" where
  "os_walk bad topdown d (File c m) = []"
| "os_walk bad topdown d (Dir es) =
     (if bad d then []
      else if topdown then (d, dirnames es, filenames es) # walk_entries bad topdown d es
      else walk_entries bad topdown d es @ [(d, dirnames es, filenames es)])"
| "walk_entries bad topdown d [] = []"
| "walk_entries bad topdown d (e # es) =
     os_walk bad topdown (d @ [fst e]) (snd e) @ walk_entries bad topdown d es"

text \<open>
  A \<open>for\<close> loop over the walk: the body runs on each item in turn, unless the generator
  raises on the way to an item; then the loop ends with the exception and the state
  reached so far.
\<close>

fun for_walk :: "(path \<Rightarrow> bool) \<Rightarrow> (walk_item \<Rightarrow> world \<Rightarrow> world) \<Rightarrow> walk_item list \<Rightarrow> world
    \<Rightarrow> (error \<times> world) + world" where
  "for_walk raises body [] w = Inr w"
| "for_walk raises body (item # items) w =
     (if raises (fst item) then Inl (RecursionError, w)
      else for_walk raises body items (body item w))"

subsection \<open>The operations the passes call\<close>

definition os_makedirs :: "env \<Rightarrow> path \<Rightarrow> world \<Rightarrow> error + world" where
  "os_makedirs env p w =
     (if makedirs_fails env p then Inl PermissionError
      else case makedirs p (replica w) of
             Inl e \<Rightarrow> Inl e
           | Inr t \<Rightarrow> Inr (w\<lparr>replica := t\<rparr>))"

definition basename :: "path \<Rightarrow> string" where
  "basename p = (if p = [] then [] else last p)"

text \<open>
  \<open>shutil.copy2 src dst\<close>: when \<open>dst\<close> is a directory the file goes inside it under
  the source's base name; the source is opened first, then the destination is written
  with the source's content and metadata.
\<close>

definition shutil_copy2 :: "env \<Rightarrow> path \<Rightarrow> path \<Rightarrow> world \<Rightarrow> error + world" where
  "shutil_copy2 env src dst w =
     (if copy2_fails env src then Inl PermissionError
      else let dst' = (if isdir (replica w) dst then dst @ [basename src] else dst)
           in case lookup (source w) src of
                None \<Rightarrow> Inl FileNotFoundError
              | Some (Dir es) \<Rightarrow> Inl IsADirectoryError
              | Some (File c m) \<Rightarrow>
                  (case write_file dst' c m (replica w) of
                     Inl e \<Rightarrow> Inl e
                   | Inr t \<Rightarrow> Inr (w\<lparr>replica := t\<rparr>)))"

definition os_remove :: "env \<Rightarrow> path \<Rightarrow> world \<Rightarrow> error + world" where
  "os_remove env p w =
     (if remove_fails env p then Inl PermissionError
      else case lookup (replica w) p of
             None \<Rightarrow> Inl FileNotFoundError
           | Some (Dir es) \<Rightarrow> Inl IsADirectoryError
           | Some (File c m) \<Rightarrow>
               (case delete_at p (replica w) of
                  None \<Rightarrow> Inl PermissionError
                | Some t \<Rightarrow> Inr (w\<lparr>replica := t\<rparr>)))"

text \<open>
  \<open>shutil.rmtree\<close> removes a directory with all it holds. The root of the replica
  itself cannot be taken away in this model (\<open>delete_at\<close> has no parent to remove it
  from); the pass never asks for that, since the root of the source always exists.
\<close>

definition shutil_rmtree :: "env \<Rightarrow> path \<Rightarrow> world \<Rightarrow> error + world" where
  "shutil_rmtree env p w =
     (if rmtree_fails env p then Inl PermissionError
      else case lookup (replica w) p of
             None \<Rightarrow> Inl FileNotFoundError
           | Some (File c m) \<Rightarrow> Inl NotADirectoryError
           | Some (Dir es) \<Rightarrow>
               (case delete_at p (replica w) of
                  None \<Rightarrow> Inl PermissionError
                | Some t \<Rightarrow> Inr (w\<lparr>replica := t\<rparr>)))"

subsection \<open>add\_files\_and\_directories\<close>

text \<open>
  Each \<open>try\<close> block increments the counter first, then runs the operation, then logs
  success; the \<open>except\<close> branch logs a warning and keeps the counter as incremented.
\<close>

definition create_directory :: "env \<Rightarrow> path \<Rightarrow> world \<Rightarrow> world" where
  "create_directory env replica_dirpath w =
     (let w1 = w\<lparr>count := count w + 1\<rparr>
      in case os_makedirs env replica_dirpath w1 of
           Inr w2 \<Rightarrow> response_message (Directory_created replica_dirpath) ''info'' w2
         | Inl e \<Rightarrow> response_message (Error_creating replica_dirpath e) ''warning'' w1)"

definition copy_file :: "env \<Rightarrow> path \<Rightarrow> path \<Rightarrow> path \<Rightarrow> world \<Rightarrow> world" where
  "copy_file env source_file replica_file replica_dirpath w =
     (let w1 = w\<lparr>count := count w + 1\<rparr>
      in case shutil_copy2 env source_file replica_file w1 of
           Inr w2 \<Rightarrow> response_message (File_copied source_file) ''info'' w2
         | Inl e \<Rightarrow> response_message (Error_copying source_file replica_dirpath e) ''warning'' w1)"

text \<open>
  The test of line 93: \<open>or\<close> evaluates the digests only when the replica file exists,
  the source's digest first.
\<close>

definition add_file :: "env \<Rightarrow> path \<Rightarrow> path \<Rightarrow> world \<Rightarrow> string \<Rightarrow> world" where
  "add_file env source_dirpath replica_dirpath w file =
     (let source_file = source_dirpath @ [file];
          replica_file = replica_dirpath @ [file]
      in if \<not> path_exists (replica w) replica_file
         then copy_file env source_file replica_file replica_dirpath w
         else case calculate_sha256 env Source source_file w of
                (h1, w1) \<Rightarrow>
                  (case calculate_sha256 env Replica replica_file w1 of
                     (h2, w2) \<Rightarrow>
                       if h1 \<noteq> h2
                       then copy_file env source_file replica_file replica_dirpath w2
                       else w2))"

definition add_body :: "env \<Rightarrow> walk_item \<Rightarrow> world \<Rightarrow> world" where
  "add_body env item w =
     (case item of (source_dirpath, dirs, files) \<Rightarrow>
        let rel_path = source_dirpath;
            replica_dirpath = rel_path;
            w1 = (if \<not> path_exists (replica w) replica_dirpath
                  then create_directory env replica_dirpath w else w)
        in foldl (add_file env source_dirpath replica_dirpath) w1 files)"

datatype outcome = Returned world | SystemExit int world

definition add_files_and_directories :: "env \<Rightarrow> world \<Rightarrow> outcome" where
  "add_files_and_directories env w =
     (case for_walk (walk_raises env Source) (add_body env)
             (os_walk (scandir_fails env Source) True [] (source w)) w of
        Inr w' \<Rightarrow> Returned w'
      | Inl (e, w') \<Rightarrow> SystemExit 1 (response_message (Unknown_error_adding e) ''error'' w'))"

subsection \<open>remove\_files\_and\_directories\<close>

definition remove_file :: "env \<Rightarrow> path \<Rightarrow> path \<Rightarrow> world \<Rightarrow> string \<Rightarrow> world" where
  "remove_file env source_dirpath replica_dirpath w file =
     (let replica_file = replica_dirpath @ [file];
          source_file = source_dirpath @ [file]
      in if \<not> path_exists (source w) source_file
         then (let w1 = w\<lparr>count := count w + 1\<rparr>
               in case os_remove env replica_file w1 of
                    Inr w2 \<Rightarrow> response_message (File_removed replica_file) ''info'' w2
                  | Inl e \<Rightarrow> response_message (Error_removing replica_file e) ''warning'' w1)
         else w)"

definition remove_directory :: "env \<Rightarrow> path \<Rightarrow> world \<Rightarrow> world" where
  "remove_directory env replica_dirpath w =
     (let w1 = w\<lparr>count := count w + 1\<rparr>
      in case shutil_rmtree env replica_dirpath w1 of
           Inr w2 \<Rightarrow> response_message (Directory_removed replica_dirpath) ''info'' w2
         | Inl e \<Rightarrow> response_message (Error_removing replica_dirpath e) ''warning'' w1)"

definition remove_body :: "env \<Rightarrow> walk_item \<Rightarrow> world \<Rightarrow> world" where
  "remove_body env item w =
     (case item of (replica_dirpath, dirs, files) \<Rightarrow>
        let rel_path = replica_dirpath;
            source_dirpath = rel_path;
            w1 = foldl (remove_file env source_dirpath replica_dirpath) w files
        in if \<not> path_exists (source w1) source_dirpath
           then remove_directory env replica_dirpath w1 else w1)"

text \<open>
  The bottom-up walk lists a directory before it descends, and the body run for a
  directory touches that directory's own subtree only; so what the walk yields is what it
  would yield on the replica as the pass found it.
\<close>

definition remove_files_and_directories :: "env \<Rightarrow> world \<Rightarrow> outcome" where
  "remove_files_and_directories env w =
     (case for_walk (walk_raises env Replica) (remove_body env)
             (os_walk (scandir_fails env Replica) False [] (replica w)) w of
        Inr w' \<Rightarrow> Returned w'
      | Inl (e, w') \<Rightarrow> SystemExit 1 (response_message (Unknown_error_removing e) ''error'' w'))"

subsection \<open>sync\_folders and main\<close>

text \<open>\<open>sys.exit\<close> in the first pass ends the process: the second pass does not run.\<close>

definition sync_folders :: "env \<Rightarrow> world \<Rightarrow> outcome" where
  "sync_folders env w =
     (case add_files_and_directories env w of
        SystemExit n w' \<Rightarrow> SystemExit n w'
      | Returned w' \<Rightarrow> remove_files_and_directories env w')"

text \<open>
  The confirmation prompt reads answers from standard input until one is \<open>y\<close> or
  \<open>n\<close>; at the end of the input \<open>input\<close> raises \<open>EOFError\<close>.
\<close>

fun confirm :: "string list \<Rightarrow> error + string" where
  "confirm [] = Inl EOFError"
| "confirm (yes_no # rest) = (if yes_no \<in> set [''y'', ''n''] then Inr yes_no else confirm rest)"

text \<open>
  What \<open>validate_paths\<close> finds out about the three paths given on the command line.
\<close>

record paths_status =
  source_isdir :: bool
  replica_isdir :: bool
  replica_creatable :: bool
  log_inside_source :: bool
  log_inside_replica :: bool
  log_writable :: bool

definition validate_paths :: "paths_status \<Rightarrow> bool" where
  \<comment> \<open>\<open>True\<close> when the function returns, \<open>False\<close> when it prints and calls \<open>sys.exit(1)\<close>\<close>
  "validate_paths ps =
     (if \<not> source_isdir ps then False
      else if \<not> replica_isdir ps \<and> \<not> replica_creatable ps then False
      else if log_inside_source ps \<or> log_inside_replica ps then False
      else log_writable ps)"

datatype sleep_event = Tick | CtrlC

datatype raised = KeyboardInterrupt | Exception error

definition time_sleep :: "int \<Rightarrow> sleep_event \<Rightarrow> raised + unit" where
  "time_sleep interval ev =
     (if interval < 0 then Inl (Exception ValueError)
      else case ev of Tick \<Rightarrow> Inr () | CtrlC \<Rightarrow> Inl KeyboardInterrupt)"

text \<open>
  The process either has exited with a status, or is still in its loop when the
  observed schedule ends. The schedule gives, for each cycle, the environment of its
  passes and what happens during the sleep after it.
\<close>

datatype process = Exited int world | Running world

fun main_loop :: "int \<Rightarrow> (env \<times> sleep_event) list \<Rightarrow> world \<Rightarrow> process" where
  "main_loop interval [] w = Running w"
| "main_loop interval (cycle # cycles) w =
     (let w1 = response_message Starting_synchronization ''info'' w;
          w2 = w1\<lparr>count := 0\<rparr>
      in case sync_folders (fst cycle) w2 of
           SystemExit n w3 \<Rightarrow> Exited n w3
         | Returned w3 \<Rightarrow>
             (let w4 = (if count w3 = 0 then response_message No_files_changed ''info'' w3 else w3);
                  w5 = response_message (Synchronization_completed interval) ''info'' w4
              in case time_sleep interval (snd cycle) of
                   Inr u \<Rightarrow> main_loop interval cycles w5
                 | Inl KeyboardInterrupt \<Rightarrow>
                     Exited 1 (response_message Program_interrupted ''info'' w5)
                 | Inl (Exception e) \<Rightarrow>
                     Exited 1 (response_message (Unexpected_error e) ''error'' w5)))"

text \<open>
  \<open>main\<close>: the answers typed at the prompt, the outcome of the path validation, the
  interval and the schedule of cycles. An exception that nothing catches (the
  \<open>EOFError\<close> of the prompt) ends the process with status 1.
\<close>

definition main :: "string list \<Rightarrow> paths_status \<Rightarrow> int \<Rightarrow> (env \<times> sleep_event) list \<Rightarrow> world \<Rightarrow> process" where
  "main answers ps interval cycles w =
     (case confirm answers of
        Inl e \<Rightarrow> Exited 1 w
      | Inr yes_no \<Rightarrow>
          if yes_no \<noteq> ''y'' \<and> yes_no = ''n'' then Exited 0 w
          else if validate_paths ps then main_loop interval cycles w
          else Exited 1 (print Validation_failed w))"

subsection \<open>Notions used in the statements and proofs\<close>

text \<open>
  A per-item failure shows in the log as a record above level info: a warning for a
  directory creation, copy or removal that raised, an error for a digest that could
  not be computed.
\<close>

definition failed :: "world \<Rightarrow> nat" where
  "failed w = length (filter (\<lambda>r. fst r \<noteq> INFO) (log w))"

text \<open>
  The records of the operations that change the replica: those that report a success,
  and those that report an operation that raised.
\<close>

fun succeeded :: "message \<Rightarrow> bool" where
  "succeeded (Directory_created p) = True"
| "succeeded (File_copied p) = True"
| "succeeded (File_removed p) = True"
| "succeeded (Directory_removed p) = True"
| "succeeded m = False"

fun refused :: "message \<Rightarrow> bool" where
  "refused (Error_creating p e) = True"
| "refused (Error_copying p d e) = True"
| "refused (Error_removing p e) = True"
| "refused m = False"

definition successes :: "world \<Rightarrow> nat" where
  "successes w = length (filter (\<lambda>r. succeeded (snd r)) (log w))"

definition attempts :: "world \<Rightarrow> nat" where
  "attempts w = length (filter (\<lambda>r. succeeded (snd r) \<or> refused (snd r)) (log w))"

text \<open>
  The passes as one sequence of steps: for each directory that the additive walk yields,
  the creation test and then one step for each file name; for each directory that the
  subtractive walk yields, one step for each file name and then the removal test.
\<close>

datatype action = MkDir path | CopyFile path string | RmFile path string | RmDir path

fun act :: "env \<Rightarrow> world \<Rightarrow> action \<Rightarrow> world" where
  "act env w (MkDir d) = (if \<not> path_exists (replica w) d then create_directory env d w else w)"
| "act env w (CopyFile d f) = add_file env d d w f"
| "act env w (RmFile d f) = remove_file env d d w f"
| "act env w (RmDir d) = (if \<not> path_exists (source w) d then remove_directory env d w else w)"

definition add_actions :: "walk_item \<Rightarrow> action list" where
  "add_actions item = (case item of (d, ds, fs) \<Rightarrow> MkDir d # map (CopyFile d) fs)"

definition remove_actions :: "walk_item \<Rightarrow> action list" where
  "remove_actions item = (case item of (d, ds, fs) \<Rightarrow> map (RmFile d) fs @ [RmDir d])"

definition copy_target :: "node \<Rightarrow> path \<Rightarrow> path \<Rightarrow> path" where
  "copy_target t src dst = (if isdir t dst then dst @ [basename src] else dst)"

text \<open>
  \<open>add_file\<close> either copies or skips, from a state that differs from the given one by
  the digest errors logged on the way.
\<close>

definition digests_logged :: "env \<Rightarrow> path \<Rightarrow> world \<Rightarrow> world" where
  "digests_logged env p w =
     snd (calculate_sha256 env Replica p (snd (calculate_sha256 env Source p w)))"

definition digest :: "env \<Rightarrow> root \<Rightarrow> path \<Rightarrow> world \<Rightarrow> string option" where
  "digest env r p w = fst (calculate_sha256 env r p w)"

text \<open>The path a step works on, and what a removal step takes away.\<close>

fun target :: "action \<Rightarrow> path" where
  "target (MkDir d) = d"
| "target (CopyFile d f) = d @ [f]"
| "target (RmFile d f) = d @ [f]"
| "target (RmDir d) = d"

fun removal :: "action \<Rightarrow> bool" where
  "removal (RmFile d f) = True"
| "removal (RmDir d) = True"
| "removal a = False"

definition kills :: "node \<Rightarrow> action \<Rightarrow> path \<Rightarrow> bool" where
  "kills src a q = (\<not> path_exists src (target a) \<and> prefix (target a) q)"

text \<open>A replica entry that matches the source file with the given content.\<close>

definition matches :: "bytes \<Rightarrow> node \<Rightarrow> path \<Rightarrow> bool" where
  "matches c t p = (\<exists>c' m'. entry_at t p = Some (KFile c' m') \<and> sha256_hex c' = sha256_hex c)"

definition addition :: "node \<Rightarrow> action \<Rightarrow> bool" where
  "addition src a = ((\<exists>d. a = MkDir d \<and> isdir src d) \<or> (\<exists>d f. a = CopyFile d f \<and> isfile src (d @ [f])))"

text \<open>
  What a failure-free cycle leaves: nothing in the replica that the source does not have,
  every source file matched by a replica file with the same fingerprint, every source
  directory present in the replica.
\<close>

definition in_sync :: "node \<Rightarrow> node \<Rightarrow> bool" where
  "in_sync src rep \<longleftrightarrow>
     (\<forall>q. path_exists rep q \<longrightarrow> path_exists src q) \<and>
     (\<forall>p c m. p \<noteq> [] \<and> lookup src p = Some (File c m) \<longrightarrow> matches c rep p) \<and>
     (\<forall>p. isdir src p \<longrightarrow> path_exists rep p)"

fun final :: "outcome \<Rightarrow> world" where
  "final (Returned w) = w"
| "final (SystemExit n w) = w"

text \<open>The number of copy attempts that the log records for a source file.\<close>

fun copy_record :: "path \<Rightarrow> message \<Rightarrow> bool" where
  "copy_record p (File_copied q) = (p = q)"
| "copy_record p (Error_copying q d e) = (p = q)"
| "copy_record p m = False"

definition copies :: "path \<Rightarrow> world \<Rightarrow> nat" where
  "copies p w = length (filter (\<lambda>r. copy_record p (snd r)) (log w))"

definition needs_copy :: "env \<Rightarrow> world \<Rightarrow> path \<Rightarrow> bool" where
  "needs_copy env w p \<longleftrightarrow>
     \<not> path_exists (replica w) p \<or>
     fst (calculate_sha256 env Source p w) \<noteq> fst (calculate_sha256 env Replica p w)"

subsection \<open>Example states\<close>

text \<open>Small concrete states and environments, on which the theorems below are instantiated.\<close>

definition w_ex :: world where
  "w_ex = \<lparr>source = Dir [(''a'', File [1, 2, 3] (0, 0)), (''d'', Dir [])], replica = Dir [],
          count = 0, log = [], stdout = []\<rparr>"

definition w_both :: world where
  "w_both = \<lparr>source = Dir [(''a'', File [1] (0, 0))], replica = Dir [(''a'', File [2] (0, 0))],
            count = 0, log = [], stdout = []\<rparr>"

definition unreadable :: env where
  "unreadable = no_faults\<lparr>read_fails := (\<lambda>r p. True)\<rparr>"

definition w_empty :: world where
  "w_empty = \<lparr>source = Dir [], replica = Dir [], count = 0, log = [], stdout = []\<rparr>"

definition ps_ok :: paths_status where
  "ps_ok = \<lparr>source_isdir = True, replica_isdir = True, replica_creatable = True,
            log_inside_source = False, log_inside_replica = False, log_writable = True\<rparr>"



definition w_cyc :: world where
  "w_cyc = \<lparr>source = Dir [(''a.txt'', File [104, 105] (1, 0)), (''docs'', Dir [(''b.txt'', File [] (2, 0))])],
            replica = Dir [(''old.txt'', File [] (0, 0)), (''tmp'', Dir [(''x'', File [] (0, 0))])],
            count = 7, log = [], stdout = []\<rparr>"

definition w_cyc1 :: world where
  "w_cyc1 = \<lparr>source = Dir [(''a.txt'', File [104, 105] (1, 0)), (''docs'', Dir [(''b.txt'', File [] (2, 0))])],
     replica = Dir [(''a.txt'', File [104, 105] (1, 0)), (''docs'', Dir [(''b.txt'', File [] (2, 0))])],
     count = 6,
     log =
       [(INFO, File_copied [''a.txt'']),
        (INFO, Directory_created [''docs'']),
        (INFO, File_copied [''docs'', ''b.txt'']),
        (INFO, File_removed [''tmp'', ''x'']),
        (INFO, Directory_removed [''tmp'']),
        (INFO, File_removed [''old.txt''])],
     stdout =
       [File_copied [''a.txt''], Directory_created [''docs''],
        File_copied [''docs'', ''b.txt''], File_removed [''tmp'', ''x''],
        Directory_removed [''tmp''], File_removed [''old.txt'']]\<rparr>"

definition w_conflict :: world where
  "w_conflict = \<lparr>source = Dir [(''d'', Dir [])], replica = Dir [(''d'', File [] (0, 0))],
                 count = 0, log = [], stdout = []\<rparr>"

definition w_one :: world where
  "w_one = \<lparr>source = Dir [(''a'', File [1] (0, 0))], replica = Dir [],
            count = 0, log = [], stdout = []\<rparr>"

definition env_refuse :: env where
  "env_refuse = no_faults\<lparr>copy2_fails := (\<lambda>p. p = [''a''])\<rparr>"

definition w_sub :: world where
  "w_sub = \<lparr>source = Dir [(''s'', Dir [(''b'', File [2] (0, 0))])], replica = Dir [],
            count = 0, log = [], stdout = []\<rparr>"

definition env_unlistable :: env where
  "env_unlistable = no_faults\<lparr>scandir_fails := (\<lambda>r p. r = Source \<and> p = [''s''])\<rparr>"

definition env_raising :: env where
  "env_raising = no_faults\<lparr>walk_raises := (\<lambda>r p. r = Source \<and> p = [''s''])\<rparr>"

definition w_one' :: world where
  "w_one' = \<lparr>source = Dir [(''a'', File [1] (0, 0))], replica = Dir [], count = 1,
     log = [(WARNING, Error_copying [''a''] [] PermissionError)],
     stdout = [Error_copying [''a''] [] PermissionError]\<rparr>"

definition w_sub' :: world where
  "w_sub' = \<lparr>source = Dir [(''s'', Dir [(''b'', File [2] (0, 0))])], replica = Dir [],
     count = 0, log = [(ERROR, Unknown_error_adding RecursionError)],
     stdout = [Unknown_error_adding RecursionError]\<rparr>"

definition w_meta :: world where
  "w_meta = \<lparr>source = Dir [(''a.txt'', File [104, 105] (1, 420)), (''new.txt'', File [] (3, 420))],
             replica = Dir [(''a.txt'', File [104, 105] (9, 384))],
             count = 0, log = [], stdout = []\<rparr>"

definition w_meta' :: world where
  "w_meta' = \<lparr>source = Dir [(''a.txt'', File [104, 105] (1, 420)), (''new.txt'', File [] (3, 420))],
     replica = Dir [(''a.txt'', File [104, 105] (9, 384)), (''new.txt'', File [] (3, 420))],
     count = 1, log = [(INFO, File_copied [''new.txt''])],
     stdout = [File_copied [''new.txt'']]\<rparr>"

definition w_locked :: world where
  "w_locked = \<lparr>source = Dir [(''a.txt'', File [104, 105] (1, 420))],
               replica = Dir [(''a.txt'', File [104, 105] (9, 128))],
               count = 0, log = [], stdout = []\<rparr>"

definition env_locked :: env where
  "env_locked = no_faults\<lparr>read_fails := (\<lambda>r p. r = Replica \<and> p = [''a.txt''])\<rparr>"

definition w_locked' :: world where
  "w_locked' = \<lparr>source = Dir [(''a.txt'', File [104, 105] (1, 420))],
     replica = Dir [(''a.txt'', File [104, 105] (1, 420))],
     count = 1,
     log = [(ERROR, Error_calculating_SHA256 Replica [''a.txt''] PermissionError),
            (INFO, File_copied [''a.txt''])],
     stdout = [Error_calculating_SHA256 Replica [''a.txt''] PermissionError,
               File_copied [''a.txt'']]\<rparr>"



section \<open>Properties\<close>

subsection \<open>Paths and the entries found there\<close>

lemma lookup_append:
  "lookup t (p @ q) = (case lookup t p of None \<Rightarrow> None | Some n \<Rightarrow> lookup n q)"
  by (induction t p rule: lookup.induct) (auto split: option.splits)

lemma lookup_File_Cons [simp]: "lookup (File c m) p = (if p = [] then Some (File c m) else None)"
  by (cases p) auto

lemma entry_at_Nil [simp]: "entry_at t [] = Some (kind t)"
  by (simp add: entry_at_def)

lemma entry_at_Cons_Dir:
  "entry_at (Dir es) (x # p) = (case map_of es x of None \<Rightarrow> None | Some c \<Rightarrow> entry_at c p)"
  by (simp add: entry_at_def split: option.splits)

lemma entry_at_Cons_File [simp]: "entry_at (File c m) (x # p) = None"
  by (simp add: entry_at_def)


lemma entry_at_under_file:
  "entry_at t p = Some (KFile c m) \<Longrightarrow> q \<noteq> [] \<Longrightarrow> entry_at t (p @ q) = None"
  by (cases "lookup t p"; cases "the (lookup t p)") (auto simp: entry_at_def lookup_append)

lemma entry_at_mk_chain:
  "entry_at (mk_chain p) q = (if prefix q p then Some KDir else None)"
  by (induction p arbitrary: q; case_tac q) (auto simp: entry_at_Cons_Dir)

text \<open>What each operation, when it succeeds, does to the entry found at any path.\<close>

lemma makedirs_entry_at:
  "makedirs p t = Inr t' \<Longrightarrow>
   entry_at t' q = (if entry_at t q = None \<and> prefix q p then Some KDir else entry_at t q)"
proof (induction p t arbitrary: t' q rule: makedirs.induct)
  case (3 x p es)
  show ?case
  proof (cases "map_of es x")
    case None
    with 3 have t': "t' = Dir (es @ [(x, mk_chain p)])" by simp
    show ?thesis
    proof (cases q)
      case Nil
      then show ?thesis by (simp add: t')
    next
      case (Cons y q')
      then show ?thesis using None
        by (auto simp: t' entry_at_Cons_Dir entry_at_mk_chain map_add_def split: option.splits)
    qed
  next
    case (Some c)
    with 3 obtain c' where c': "makedirs p c = Inr c'" and t': "t' = Dir (AList.update x c' es)"
      by (auto split: sum.splits)
    show ?thesis
    proof (cases q)
      case Nil
      then show ?thesis by (simp add: t')
    next
      case (Cons y q')
      then show ?thesis using Some "3.IH"[OF Some c', of q']
        by (auto simp: t' entry_at_Cons_Dir update_conv' split: option.splits)
    qed
  qed
qed auto

lemma write_file_entry_at:
  "write_file p c m t = Inr t' \<Longrightarrow>
   entry_at t' q = (if q = p then Some (KFile c m) else entry_at t q)"
proof (induction p c m t arbitrary: t' q rule: write_file.induct)
  case (3 x c m es)
  then have t': "t' = Dir (AList.update x (File c m) es)" and nd: "\<forall>ds. map_of es x \<noteq> Some (Dir ds)"
    by (auto split: option.splits node.splits)
  show ?case
  proof (cases q)
    case Nil
    then show ?thesis by (simp add: t')
  next
    case (Cons y q')
    then show ?thesis using nd
      by (cases "map_of es x"; cases "the (map_of es x)"; cases q')
         (auto simp: t' entry_at_Cons_Dir update_conv' split: option.splits)
  qed
next
  case (4 x y p c m es)
  then obtain d d' where d: "map_of es x = Some d" and d': "write_file (y # p) c m d = Inr d'"
    and t': "t' = Dir (AList.update x d' es)"
    by (auto split: option.splits sum.splits)
  show ?case
  proof (cases q)
    case Nil
    then show ?thesis by (simp add: t')
  next
    case (Cons z q')
    then show ?thesis using d "4.IH"[OF d d', of q']
      by (auto simp: t' entry_at_Cons_Dir update_conv' split: option.splits)
  qed
qed auto

lemma delete_at_entry_at:
  "delete_at p t = Some t' \<Longrightarrow>
   entry_at t' q = (if prefix p q then None else entry_at t q)"
proof (induction p t arbitrary: t' q rule: delete_at.induct)
  case (3 x es)
  then have t': "t' = Dir (AList.delete x es)"
    by (auto split: option.splits)
  show ?case
  proof (cases q)
    case Nil
    then show ?thesis by (simp add: t')
  next
    case (Cons y q')
    then show ?thesis
      by (auto simp: t' entry_at_Cons_Dir delete_conv' split: option.splits)
  qed
next
  case (4 x y p es)
  then obtain d d' where d: "map_of es x = Some d" and d': "delete_at (y # p) d = Some d'"
    and t': "t' = Dir (AList.update x d' es)"
    by (auto split: option.splits)
  show ?case
  proof (cases q)
    case Nil
    then show ?thesis by (simp add: t')
  next
    case (Cons z q')
    then show ?thesis using d "4.IH"[OF d d', of q']
      by (auto simp: t' entry_at_Cons_Dir update_conv' split: option.splits)
  qed
qed auto

subsection \<open>The digest\<close>

lemma read_loop_eq: "read_loop bs h = h @ bs"
proof (induction bs h rule: read_loop.induct)
  case (1 bs h)
  show ?case
  proof (cases "take 4096 bs = []")
    case True
    then have "bs = []" by (cases bs) auto
    then show ?thesis by (simp add: read_loop.simps[of "[]"])
  next
    case False
    have "read_loop bs h = read_loop (drop 4096 bs) (update h (take 4096 bs))"
      using False by (subst read_loop.simps) (simp add: Let_def)
    also have "\<dots> = update h (take 4096 bs) @ drop 4096 bs"
      using "1.IH"[OF refl False] .
    finally show ?thesis by (simp add: update_def)
  qed
qed

lemma length_hex32: "length (hex32 w) = 8"
  by (simp add: hex32_def)

lemma hexchar_digit: "hexchar n \<in> set ''0123456789abcdef''"
  unfolding hexchar_def by (rule nth_mem) simp

lemma set_hex32: "set (hex32 w) \<subseteq> set ''0123456789abcdef''"
  unfolding hex32_def using hexchar_digit by (auto simp del: set_simps)

lemma length_sha256_hex: "length (sha256_hex m) = 64"
  by (simp add: sha256_hex_def length_hex32 split: prod.splits)

lemma set_sha256_hex: "set (sha256_hex m) \<subseteq> set ''0123456789abcdef''"
  unfolding sha256_hex_def using set_hex32 by (auto split: prod.splits simp del: set_simps)

lemma path_exists_entry_at: "path_exists t p \<longleftrightarrow> entry_at t p \<noteq> None"
  by (simp add: path_exists_def entry_at_def)

lemma path_exists_prefix: "path_exists t (p @ q) \<Longrightarrow> path_exists t p"
  by (auto simp: path_exists_def lookup_append split: option.splits)

lemma wf_entries_iff: "wf_entries es \<longleftrightarrow> (\<forall>e\<in>set es. wf_tree (snd e))"
  by (induction es) auto

lemma wf_tree_lookup: "wf_tree t \<Longrightarrow> lookup t p = Some n \<Longrightarrow> wf_tree n"
proof (induction t p rule: lookup.induct)
  case (3 es x p)
  then obtain c where c: "map_of es x = Some c" and l: "lookup c p = Some n"
    by (auto split: option.splits)
  from c have "(x, c) \<in> set es" by (rule map_of_SomeD)
  with 3(2) have "wf_tree c" by (auto simp: wf_entries_iff)
  with 3(1)[OF c] l show ?case by simp
qed auto

lemma filenames_iff:
  "distinct (map fst es) \<Longrightarrow> f \<in> set (filenames es) \<longleftrightarrow> (\<exists>c m. map_of es f = Some (File c m))"
proof -
  assume d: "distinct (map fst es)"
  have "f \<in> set (filenames es) \<longleftrightarrow> (\<exists>n. (f, n) \<in> set es \<and> \<not> is_Dir n)"
    by (force simp: filenames_def)
  also have "\<dots> \<longleftrightarrow> (\<exists>n. map_of es f = Some n \<and> \<not> is_Dir n)"
    using d by simp
  also have "\<dots> \<longleftrightarrow> (\<exists>c m. map_of es f = Some (File c m))"
    by (metis is_Dir.elims(3) is_Dir.simps(2) is_Dir.simps(1))
  finally show ?thesis .
qed

lemma distinct_filenames: "distinct (map fst es) \<Longrightarrow> distinct (filenames es)"
  by (simp add: filenames_def distinct_map_filter)

lemma walk_sound:
  "wf_tree t \<Longrightarrow> item \<in> set (os_walk bad td d t) \<Longrightarrow>
     \<exists>r es. lookup t r = Some (Dir es) \<and> item = (d @ r, dirnames es, filenames es)"
  "wf_entries es \<Longrightarrow> distinct (map fst es) \<Longrightarrow> item \<in> set (walk_entries bad td d es) \<Longrightarrow>
     \<exists>x c r es'. map_of es x = Some c \<and> lookup c r = Some (Dir es') \<and>
        item = (d @ x # r, dirnames es', filenames es')"
proof (induction bad td d t and bad td d es rule: os_walk_walk_entries.induct)
  case (2 bad td d es)
  show ?case
  proof (cases "item = (d, dirnames es, filenames es)")
    case True
    then show ?thesis by (intro exI[of _ "[]"] exI[of _ es]) simp
  next
    case False
    with 2 have nb: "\<not> bad d" and "item \<in> set (walk_entries bad td d es)"
      by (auto split: if_splits)
    with 2 obtain x c r es' where "map_of es x = Some c" "lookup c r = Some (Dir es')"
        "item = (d @ x # r, dirnames es', filenames es')"
      by (cases td) (auto split: if_splits)
    then show ?thesis
      by (intro exI[of _ "x # r"] exI[of _ es']) simp
  qed
next
  case (4 bad td d e es)
  obtain x c where e: "e = (x, c)" by (cases e)
  from 4(3,4) have wfc: "wf_tree c" and wfes: "wf_entries es" and dis: "distinct (map fst es)"
    and xn: "x \<notin> fst ` set es"
    by (auto simp: e)
  from 4(5) consider "item \<in> set (os_walk bad td (d @ [x]) c)" | "item \<in> set (walk_entries bad td d es)"
    by (auto simp: e)
  then show ?case
  proof cases
    case 1
    from 4(1) 1 wfc obtain r es' where
      "lookup c r = Some (Dir es')" "item = ((d @ [x]) @ r, dirnames es', filenames es')"
      by (auto simp: e)
    then show ?thesis
      by (intro exI[of _ x] exI[of _ c] exI[of _ r] exI[of _ es']) (simp add: e)
  next
    case 2
    from 4(2)[OF wfes dis 2] obtain y c' r es' where y: "map_of es y = Some c'"
      "lookup c' r = Some (Dir es')" "item = (d @ y # r, dirnames es', filenames es')"
      by blast
    from y(1) have "y \<in> fst ` set es" by (metis domI dom_map_of_conv_image_fst)
    with xn have "y \<noteq> x" by auto
    with y show ?thesis
      by (intro exI[of _ y] exI[of _ c'] exI[of _ r] exI[of _ es']) (simp add: e)
  qed
qed auto

lemma walk_complete:
  "\<forall>p. \<not> bad p \<Longrightarrow> lookup t r = Some (Dir es) \<Longrightarrow>
     (d @ r, dirnames es, filenames es) \<in> set (os_walk bad td d t)"
  "\<forall>p. \<not> bad p \<Longrightarrow> (x, c) \<in> set es' \<Longrightarrow> lookup c r = Some (Dir es) \<Longrightarrow>
     (d @ x # r, dirnames es, filenames es) \<in> set (walk_entries bad td d es')"
proof (induction bad td d t and bad td d es' arbitrary: r es and x c r es rule: os_walk_walk_entries.induct)
  case (2 bad td d es0)
  show ?case
  proof (cases r)
    case Nil
    with 2 show ?thesis by auto
  next
    case (Cons x r')
    with 2(4) obtain c where c: "map_of es0 x = Some c" and l: "lookup c r' = Some (Dir es)"
      by (auto split: option.splits)
    from c have "(x, c) \<in> set es0" by (rule map_of_SomeD)
    from 2(1)[OF _ _ 2(3) this l] 2(2)[OF _ _ 2(3) this l] 2(3) show ?thesis
      by (cases td) (auto simp: Cons)
  qed
next
  case (4 bad td d e es0)
  from 4(4) consider "e = (x, c)" | "(x, c) \<in> set es0" by auto
  then show ?case
  proof cases
    case 1
    from 4(1)[OF 4(3), of r es] 4(5) show ?thesis by (simp add: 1)
  next
    case 2
    from 4(2)[OF 4(3) 2 4(5)] show ?thesis by simp
  qed
qed (auto split: if_splits)

subsection \<open>Well-formedness is kept by the operations\<close>

lemma wf_tree_mk_chain: "wf_tree (mk_chain p)"
  by (induction p) auto

lemma wf_entries_update: "wf_entries es \<Longrightarrow> wf_tree c \<Longrightarrow> wf_entries (AList.update x c es)"
  by (induction es) auto

lemma wf_entries_delete: "wf_entries es \<Longrightarrow> wf_entries (AList.delete x es)"
  by (induction es) auto

lemma wf_entries_append: "wf_entries (es @ es') \<longleftrightarrow> wf_entries es \<and> wf_entries es'"
  by (induction es) auto

lemma wf_tree_map_of: "wf_entries es \<Longrightarrow> map_of es x = Some c \<Longrightarrow> wf_tree c"
  by (auto simp: wf_entries_iff dest!: map_of_SomeD)

lemma wf_tree_makedirs: "wf_tree t \<Longrightarrow> makedirs p t = Inr t' \<Longrightarrow> wf_tree t'"
proof (induction p t arbitrary: t' rule: makedirs.induct)
  case (3 x p es)
  show ?case
  proof (cases "map_of es x")
    case None
    then have "x \<notin> fst ` set es" by (simp add: map_of_eq_None_iff)
    with 3 None show ?thesis
      by (auto simp: wf_entries_append wf_tree_mk_chain)
  next
    case (Some c)
    with 3 obtain c' where c': "makedirs p c = Inr c'" and t': "t' = Dir (AList.update x c' es)"
      by (auto split: sum.splits)
    from 3(2) Some have "wf_tree c" by (auto intro: wf_tree_map_of)
    from 3(1)[OF Some this c'] 3(2) show ?thesis
      by (auto simp: t' distinct_update wf_entries_update)
  qed
qed auto

lemma wf_tree_write_file: "wf_tree t \<Longrightarrow> write_file p c m t = Inr t' \<Longrightarrow> wf_tree t'"
proof (induction p c m t arbitrary: t' rule: write_file.induct)
  case (3 x c m es)
  then show ?case
    by (auto simp: distinct_update wf_entries_update split: option.splits node.splits)
next
  case (4 x y p c m es)
  then obtain d d' where d: "map_of es x = Some d" and d': "write_file (y # p) c m d = Inr d'"
    and t': "t' = Dir (AList.update x d' es)"
    by (auto split: option.splits sum.splits)
  from 4(2) d have "wf_tree d" by (auto intro: wf_tree_map_of)
  from 4(1)[OF d this d'] 4(2) show ?case
    by (auto simp: t' distinct_update wf_entries_update)
qed auto

lemma wf_tree_delete_at: "wf_tree t \<Longrightarrow> delete_at p t = Some t' \<Longrightarrow> wf_tree t'"
proof (induction p t arbitrary: t' rule: delete_at.induct)
  case (3 x es)
  then show ?case
    by (auto simp: distinct_delete wf_entries_delete split: option.splits)
next
  case (4 x y p es)
  then obtain d d' where d: "map_of es x = Some d" and d': "delete_at (y # p) d = Some d'"
    and t': "t' = Dir (AList.update x d' es)"
    by (auto split: option.splits)
  from 4(2) d have "wf_tree d" by (auto intro: wf_tree_map_of)
  from 4(1)[OF d this d'] 4(2) show ?case
    by (auto simp: t' distinct_update wf_entries_update)
qed auto

subsection \<open>The lists of file and directory paths\<close>

lemma file_paths_iff:
  "wf_tree t \<Longrightarrow> p \<in> set (file_paths d t) \<longleftrightarrow> (\<exists>r c m. p = d @ r \<and> lookup t r = Some (File c m))"
  "wf_entries es \<Longrightarrow> distinct (map fst es) \<Longrightarrow>
     p \<in> set (file_paths_entries d es) \<longleftrightarrow>
       (\<exists>x n r c m. map_of es x = Some n \<and> p = d @ x # r \<and> lookup n r = Some (File c m))"
proof (induction d t and d es rule: file_paths_file_paths_entries.induct)
  case (1 base c m)
  then show ?case by auto
next
  case (2 base es)
  have "(\<exists>r c m. p = base @ r \<and> lookup (Dir es) r = Some (File c m)) \<longleftrightarrow>
        (\<exists>x n r c m. map_of es x = Some n \<and> p = base @ x # r \<and> lookup n r = Some (File c m))"
    (is "?L \<longleftrightarrow> ?R")
  proof
    assume ?L
    then obtain r c m where r: "p = base @ r" "lookup (Dir es) r = Some (File c m)" by blast
    then show ?R by (cases r) (auto split: option.splits)
  next
    assume ?R
    then obtain x n r c m where "map_of es x = Some n" "p = base @ x # r" "lookup n r = Some (File c m)"
      by blast
    then show ?L by (intro exI[of _ "x # r"]) auto
  qed
  with 2 show ?case by auto
next
  case (3 base)
  then show ?case by simp
next
  case (4 base e es)
  obtain x n where e: "e = (x, n)" by (cases e)
  from 4(3,4) have wfn: "wf_tree n" and wfes: "wf_entries es" and dis: "distinct (map fst es)"
    and xn: "x \<notin> fst ` set es"
    by (auto simp: e)
  have nx: "map_of es x = None" using xn by (simp add: map_of_eq_None_iff)
  have a: "p \<in> set (file_paths (base @ [x]) n) \<longleftrightarrow>
        (\<exists>r c m. p = (base @ [x]) @ r \<and> lookup n r = Some (File c m))"
    using 4(1) wfn by (simp add: e)
  have b: "p \<in> set (file_paths_entries base es) \<longleftrightarrow>
       (\<exists>y n' r c m. map_of es y = Some n' \<and> p = base @ y # r \<and> lookup n' r = Some (File c m))"
    using 4(2)[OF wfes dis] .
  have c: "(\<exists>y n' r c m. map_of es y = Some n' \<and> p = base @ y # r \<and> lookup n' r = Some (File c m))
        \<longleftrightarrow> (\<exists>y n' r c m. y \<noteq> x \<and> map_of es y = Some n' \<and> p = base @ y # r \<and> lookup n' r = Some (File c m))"
    using nx by (metis option.distinct(1))
  show ?case
    unfolding e file_paths_entries.simps set_append Un_iff fst_conv snd_conv a b c
    by (simp, safe) (auto split: if_splits intro: exI[of _ x])
qed

lemma dir_paths_iff:
  "wf_tree t \<Longrightarrow> p \<in> set (dir_paths d t) \<longleftrightarrow> (\<exists>r es. p = d @ r \<and> lookup t r = Some (Dir es))"
  "wf_entries es \<Longrightarrow> distinct (map fst es) \<Longrightarrow>
     p \<in> set (dir_paths_entries d es) \<longleftrightarrow>
       (\<exists>x n r es'. map_of es x = Some n \<and> p = d @ x # r \<and> lookup n r = Some (Dir es'))"
proof (induction d t and d es rule: dir_paths_dir_paths_entries.induct)
  case (1 base c m)
  then show ?case by auto
next
  case (2 base es)
  have "(\<exists>r es'. p = base @ r \<and> lookup (Dir es) r = Some (Dir es')) \<longleftrightarrow>
        p = base \<or> (\<exists>x n r es'. map_of es x = Some n \<and> p = base @ x # r \<and> lookup n r = Some (Dir es'))"
    (is "?L \<longleftrightarrow> ?R")
  proof
    assume ?L
    then obtain r es' where r: "p = base @ r" "lookup (Dir es) r = Some (Dir es')" by blast
    then show ?R by (cases r) (auto split: option.splits)
  next
    assume ?R
    then show ?L
    proof
      assume "p = base"
      then show ?L by (intro exI[of _ "[]"] exI[of _ es]) auto
    next
      assume "\<exists>x n r es'. map_of es x = Some n \<and> p = base @ x # r \<and> lookup n r = Some (Dir es')"
      then obtain x n r es' where "map_of es x = Some n" "p = base @ x # r" "lookup n r = Some (Dir es')"
        by blast
      then show ?L by (intro exI[of _ "x # r"]) auto
    qed
  qed
  with 2 show ?case by auto
next
  case (3 base)
  then show ?case by simp
next
  case (4 base e es)
  obtain x n where e: "e = (x, n)" by (cases e)
  from 4(3,4) have wfn: "wf_tree n" and wfes: "wf_entries es" and dis: "distinct (map fst es)"
    and xn: "x \<notin> fst ` set es"
    by (auto simp: e)
  have nx: "map_of es x = None" using xn by (simp add: map_of_eq_None_iff)
  have a: "p \<in> set (dir_paths (base @ [x]) n) \<longleftrightarrow>
        (\<exists>r es'. p = (base @ [x]) @ r \<and> lookup n r = Some (Dir es'))"
    using 4(1) wfn by (simp add: e)
  have b: "p \<in> set (dir_paths_entries base es) \<longleftrightarrow>
       (\<exists>y n' r es'. map_of es y = Some n' \<and> p = base @ y # r \<and> lookup n' r = Some (Dir es'))"
    using 4(2)[OF wfes dis] .
  have c: "(\<exists>y n' r es'. map_of es y = Some n' \<and> p = base @ y # r \<and> lookup n' r = Some (Dir es'))
        \<longleftrightarrow> (\<exists>y n' r es'. y \<noteq> x \<and> map_of es y = Some n' \<and> p = base @ y # r \<and> lookup n' r = Some (Dir es'))"
    using nx by (metis option.distinct(1))
  show ?case
    unfolding e dir_paths_entries.simps set_append Un_iff fst_conv snd_conv a b c
    by (simp, safe) (auto split: if_splits intro: exI[of _ x])
qed

lemma isfile_iff: "isfile t p \<longleftrightarrow> (\<exists>c m. lookup t p = Some (File c m))"
  by (cases "lookup t p"; cases "the (lookup t p)") (auto simp: isfile_def entry_at_def)

lemma isdir_iff: "isdir t p \<longleftrightarrow> (\<exists>es. lookup t p = Some (Dir es))"
  by (cases "lookup t p"; cases "the (lookup t p)") (auto simp: isdir_def entry_at_def)

lemma set_file_paths: "wf_tree t \<Longrightarrow> set (file_paths [] t) = {p. isfile t p}"
  by (auto simp: file_paths_iff(1) isfile_iff)

lemma set_dir_paths: "wf_tree t \<Longrightarrow> set (dir_paths [] t) = {p. isdir t p}"
  by (auto simp: dir_paths_iff(1) isdir_iff)

subsection \<open>The passes as folds over steps\<close>

lemma foldl_map_fun: "foldl f w (map g xs) = foldl (\<lambda>w x. f w (g x)) w xs"
  by (induction xs arbitrary: w) auto

lemma add_body_act: "add_body env item w = foldl (act env) w (add_actions item)"
  by (cases item) (simp add: add_body_def add_actions_def Let_def foldl_map_fun)

lemma remove_body_act: "remove_body env item w = foldl (act env) w (remove_actions item)"
  by (cases item) (simp add: remove_body_def remove_actions_def Let_def foldl_map_fun)

lemma for_walk_Inr:
  "for_walk raises body items w = Inr w' \<Longrightarrow> w' = foldl (\<lambda>w i. body i w) w items"
  by (induction items arbitrary: w) (auto split: if_splits)

lemma for_walk_no_raise:
  "\<forall>i\<in>set items. \<not> raises (fst i) \<Longrightarrow>
   for_walk raises body items w = Inr (foldl (\<lambda>w i. body i w) w items)"
  by (induction items arbitrary: w) auto

lemma foldl_concat_map:
  "foldl (\<lambda>w i. foldl f w (g i)) w items = foldl f w (concat (map g items))"
  by (induction items arbitrary: w) auto

lemma add_pass_fold:
  "add_files_and_directories env w = Returned w' \<Longrightarrow>
   w' = foldl (act env) w
          (concat (map add_actions (os_walk (scandir_fails env Source) True [] (source w))))"
  by (auto simp: add_files_and_directories_def add_body_act foldl_concat_map
      split: sum.splits dest!: for_walk_Inr)

lemma remove_pass_fold:
  "remove_files_and_directories env w = Returned w' \<Longrightarrow>
   w' = foldl (act env) w
          (concat (map remove_actions (os_walk (scandir_fails env Replica) False [] (replica w))))"
  by (auto simp: remove_files_and_directories_def remove_body_act foldl_concat_map
      split: sum.splits dest!: for_walk_Inr)

lemma delete_at_None_iff: "delete_at p t = None \<longleftrightarrow> p = [] \<or> \<not> path_exists t p"
proof (induction p t rule: delete_at.induct)
  case (4 x y p es)
  then show ?case by (auto simp: path_exists_def split: option.splits)
qed (auto simp: path_exists_def split: option.splits)

subsection \<open>What one step does to the state\<close>

lemma response_message_fields [simp]:
  "source (response_message m ty w) = source w"
  "replica (response_message m ty w) = replica w"
  "count (response_message m ty w) = count w"
  by (simp_all add: response_message_def logging_def print_def)

lemma log_response_message:
  "log (response_message m ''info'' w) = log w @ [(INFO, m)]"
  "log (response_message m ''warning'' w) = log w @ [(WARNING, m)]"
  "log (response_message m ''error'' w) = log w @ [(ERROR, m)]"
  by (simp_all add: response_message_def logging_def print_def)

lemma failed_response_message [simp]:
  "failed (response_message m ''info'' w) = failed w"
  "failed (response_message m ''warning'' w) = Suc (failed w)"
  "failed (response_message m ''error'' w) = Suc (failed w)"
  by (simp_all add: failed_def log_response_message)

lemma attempts_response_message [simp]:
  "attempts (response_message m ''info'' w) = attempts w + (if succeeded m \<or> refused m then 1 else 0)"
  "attempts (response_message m ''warning'' w) = attempts w + (if succeeded m \<or> refused m then 1 else 0)"
  "attempts (response_message m ''error'' w) = attempts w + (if succeeded m \<or> refused m then 1 else 0)"
  by (simp_all add: attempts_def log_response_message)

lemma failed_update [simp]:
  "failed (w\<lparr>count := c\<rparr>) = failed w" "failed (w\<lparr>replica := t\<rparr>) = failed w"
  by (simp_all add: failed_def)

lemma attempts_update [simp]:
  "attempts (w\<lparr>count := c\<rparr>) = attempts w" "attempts (w\<lparr>replica := t\<rparr>) = attempts w"
  by (simp_all add: attempts_def)

text \<open>The two ways each \<open>try\<close> block can go.\<close>

lemma create_directory_cases:
  obtains (ok) t where "\<not> makedirs_fails env d" and "makedirs d (replica w) = Inr t"
      and "create_directory env d w
           = response_message (Directory_created d) ''info'' (w\<lparr>count := count w + 1, replica := t\<rparr>)"
  | (fail) e where "makedirs_fails env d \<or> makedirs d (replica w) = Inl e"
      and "create_directory env d w
           = response_message (Error_creating d e) ''warning'' (w\<lparr>count := count w + 1\<rparr>)"
proof (cases "makedirs_fails env d")
  case True
  then show ?thesis
    by (intro fail[of PermissionError]) (simp_all add: create_directory_def os_makedirs_def)
next
  case False
  show ?thesis
  proof (cases "makedirs d (replica w)")
    case (Inl e)
    with False show ?thesis
      by (intro fail[of e]) (simp_all add: create_directory_def os_makedirs_def)
  next
    case (Inr t)
    with False show ?thesis
      by (intro ok[of t]) (simp_all add: create_directory_def os_makedirs_def)
  qed
qed

lemma copy_file_cases:
  obtains (ok) c m t where "\<not> copy2_fails env src" and "lookup (source w) src = Some (File c m)"
      and "write_file (copy_target (replica w) src dst) c m (replica w) = Inr t"
      and "copy_file env src dst dd w
           = response_message (File_copied src) ''info'' (w\<lparr>count := count w + 1, replica := t\<rparr>)"
  | (fail) e where
      "copy2_fails env src \<or> (\<forall>c m. lookup (source w) src \<noteq> Some (File c m)) \<or>
       (\<exists>c m. lookup (source w) src = Some (File c m) \<and>
              write_file (copy_target (replica w) src dst) c m (replica w) = Inl e)"
      and "copy_file env src dst dd w
           = response_message (Error_copying src dd e) ''warning'' (w\<lparr>count := count w + 1\<rparr>)"
proof (cases "copy2_fails env src")
  case True
  then show ?thesis
    by (intro fail[of PermissionError]) (simp_all add: copy_file_def shutil_copy2_def)
next
  case False
  show ?thesis
  proof (cases "lookup (source w) src")
    case None
    with False show ?thesis
      by (intro fail[of FileNotFoundError]) (simp_all add: copy_file_def shutil_copy2_def Let_def)
  next
    case (Some n)
    show ?thesis
    proof (cases n)
      case (Dir es)
      with False Some show ?thesis
        by (intro fail[of IsADirectoryError]) (simp_all add: copy_file_def shutil_copy2_def Let_def)
    next
      case (File c m)
      show ?thesis
      proof (cases "write_file (copy_target (replica w) src dst) c m (replica w)")
        case (Inl e)
        with False Some File show ?thesis
          by (intro fail[of e])
             (simp_all add: copy_file_def shutil_copy2_def Let_def copy_target_def)
      next
        case (Inr t)
        with False Some File show ?thesis
          by (intro ok[of c m t])
             (simp_all add: copy_file_def shutil_copy2_def Let_def copy_target_def)
      qed
    qed
  qed
qed

lemma remove_cases:
  assumes "\<not> path_exists (source w) (d @ [f])"
  obtains (ok) c m t where "\<not> remove_fails env (d @ [f])"
      and "lookup (replica w) (d @ [f]) = Some (File c m)"
      and "delete_at (d @ [f]) (replica w) = Some t"
      and "remove_file env d d w f
           = response_message (File_removed (d @ [f])) ''info'' (w\<lparr>count := count w + 1, replica := t\<rparr>)"
  | (fail) e where
      "remove_fails env (d @ [f]) \<or> (\<forall>c m. lookup (replica w) (d @ [f]) \<noteq> Some (File c m))"
      and "remove_file env d d w f
           = response_message (Error_removing (d @ [f]) e) ''warning'' (w\<lparr>count := count w + 1\<rparr>)"
proof (cases "remove_fails env (d @ [f])")
  case True
  then show ?thesis using assms
    by (intro fail[of PermissionError]) (simp_all add: remove_file_def os_remove_def)
next
  case False
  show ?thesis
  proof (cases "lookup (replica w) (d @ [f])")
    case None
    with False assms show ?thesis
      by (intro fail[of FileNotFoundError]) (simp_all add: remove_file_def os_remove_def)
  next
    case (Some n)
    show ?thesis
    proof (cases n)
      case (Dir es)
      with False Some assms show ?thesis
        by (intro fail[of IsADirectoryError]) (simp_all add: remove_file_def os_remove_def)
    next
      case (File c m)
      have "delete_at (d @ [f]) (replica w) \<noteq> None"
        using Some by (simp add: delete_at_None_iff path_exists_def)
      then obtain t where "delete_at (d @ [f]) (replica w) = Some t" by blast
      with False Some File assms show ?thesis
        by (intro ok[of c m t]) (simp_all add: remove_file_def os_remove_def)
    qed
  qed
qed

lemma rmtree_cases:
  obtains (ok) es t where "\<not> rmtree_fails env d"
      and "lookup (replica w) d = Some (Dir es)"
      and "delete_at d (replica w) = Some t"
      and "remove_directory env d w
           = response_message (Directory_removed d) ''info'' (w\<lparr>count := count w + 1, replica := t\<rparr>)"
  | (fail) e where
      "rmtree_fails env d \<or> d = [] \<or> (\<forall>es. lookup (replica w) d \<noteq> Some (Dir es))"
      and "remove_directory env d w
           = response_message (Error_removing d e) ''warning'' (w\<lparr>count := count w + 1\<rparr>)"
proof (cases "rmtree_fails env d")
  case True
  then show ?thesis
    by (intro fail[of PermissionError]) (simp_all add: remove_directory_def shutil_rmtree_def)
next
  case False
  show ?thesis
  proof (cases "lookup (replica w) d")
    case None
    with False show ?thesis
      by (intro fail[of FileNotFoundError]) (simp_all add: remove_directory_def shutil_rmtree_def)
  next
    case (Some n)
    show ?thesis
    proof (cases n)
      case (File c m)
      with False Some show ?thesis
        by (intro fail[of NotADirectoryError]) (simp_all add: remove_directory_def shutil_rmtree_def)
    next
      case (Dir es)
      show ?thesis
      proof (cases "delete_at d (replica w)")
        case None
        then have "d = []" using Some by (simp add: delete_at_None_iff path_exists_def)
        with False Some Dir None show ?thesis
          by (intro fail[of PermissionError]) (simp_all add: remove_directory_def shutil_rmtree_def)
      next
        case (Some t)
        with False \<open>lookup (replica w) d = Some n\<close> Dir show ?thesis
          by (intro ok[of es t]) (simp_all add: remove_directory_def shutil_rmtree_def)
      qed
    qed
  qed
qed

lemma calculate_sha256_Inl:
  "open_rb env r p w = Inl e \<Longrightarrow>
   calculate_sha256 env r p w = (None, response_message (Error_calculating_SHA256 r p e) ''error'' w)"
  by (simp add: calculate_sha256_def)

lemma calculate_sha256_Inr:
  "open_rb env r p w = Inr c \<Longrightarrow> calculate_sha256 env r p w = (Some (sha256_hex c), w)"
  by (simp add: calculate_sha256_def hexdigest_def read_loop_eq hashlib_sha256_def)

lemma open_rb_Inr_iff:
  "open_rb env r p w = Inr c \<longleftrightarrow>
     (\<exists>m. lookup (tree w r) p = Some (File c m)) \<and> \<not> read_fails env r p"
  by (auto simp: open_rb_def split: option.splits node.splits)

lemma open_rb_cong:
  "source w' = source w \<Longrightarrow> replica w' = replica w \<Longrightarrow> open_rb env r p w' = open_rb env r p w"
  by (cases r) (simp_all add: open_rb_def tree_def)

lemma digest_cong:
  "source w' = source w \<Longrightarrow> replica w' = replica w \<Longrightarrow> digest env r p w' = digest env r p w"
  using open_rb_cong[of w' w env r p]
  by (cases "open_rb env r p w") (simp_all add: digest_def calculate_sha256_def)

lemma calculate_sha256_fields [simp]:
  "source (snd (calculate_sha256 env r p w)) = source w"
  "replica (snd (calculate_sha256 env r p w)) = replica w"
  "count (snd (calculate_sha256 env r p w)) = count w"
  "attempts (snd (calculate_sha256 env r p w)) = attempts w"
  by (cases "open_rb env r p w"; simp add: calculate_sha256_def)+

lemma failed_calculate_sha256:
  "failed (snd (calculate_sha256 env r p w)) = (if digest env r p w = None then Suc (failed w) else failed w)"
  by (cases "open_rb env r p w") (simp_all add: calculate_sha256_def digest_def)

lemma calculate_sha256_snd_Some:
  "digest env r p w \<noteq> None \<Longrightarrow> snd (calculate_sha256 env r p w) = w"
  by (cases "open_rb env r p w") (simp_all add: calculate_sha256_def digest_def)

lemma digests_logged_fields [simp]:
  "source (digests_logged env p w) = source w"
  "replica (digests_logged env p w) = replica w"
  "count (digests_logged env p w) = count w"
  "attempts (digests_logged env p w) = attempts w"
  by (simp_all add: digests_logged_def)

lemma failed_digests_logged:
  "failed (digests_logged env p w) =
     failed w + (if digest env Source p w = None then 1 else 0)
              + (if digest env Replica p w = None then 1 else 0)"
  by (simp add: digests_logged_def failed_calculate_sha256
      digest_cong[of "snd (calculate_sha256 env Source p w)" w])

lemma digests_logged_id:
  "digest env Source p w \<noteq> None \<Longrightarrow> digest env Replica p w \<noteq> None \<Longrightarrow> digests_logged env p w = w"
  by (simp add: digests_logged_def calculate_sha256_snd_Some)

lemma add_file_eq:
  "add_file env d d w f =
     (if \<not> path_exists (replica w) (d @ [f]) then copy_file env (d @ [f]) (d @ [f]) d w
      else if digest env Source (d @ [f]) w \<noteq> digest env Replica (d @ [f]) w
           then copy_file env (d @ [f]) (d @ [f]) d (digests_logged env (d @ [f]) w)
           else digests_logged env (d @ [f]) w)"
proof -
  obtain h1 w1 where s: "calculate_sha256 env Source (d @ [f]) w = (h1, w1)"
    by (cases "calculate_sha256 env Source (d @ [f]) w")
  obtain h2 w2 where r: "calculate_sha256 env Replica (d @ [f]) w1 = (h2, w2)"
    by (cases "calculate_sha256 env Replica (d @ [f]) w1")
  have w1: "w1 = snd (calculate_sha256 env Source (d @ [f]) w)" by (simp add: s)
  have d1: "digest env Source (d @ [f]) w = h1" by (simp add: digest_def s)
  have "digest env Replica (d @ [f]) w = digest env Replica (d @ [f]) w1"
    by (rule digest_cong[symmetric]) (simp_all add: w1)
  then have d2: "digest env Replica (d @ [f]) w = h2" by (simp add: digest_def r)
  have dl: "digests_logged env (d @ [f]) w = w2" by (simp add: digests_logged_def s r)
  show ?thesis
    unfolding d1 d2 dl by (simp add: add_file_def Let_def s r)
qed

lemma digest_Some_iff:
  "digest env r p w = Some h \<longleftrightarrow>
     (\<exists>c m. lookup (tree w r) p = Some (File c m) \<and> \<not> read_fails env r p \<and> h = sha256_hex c)"
  by (cases "open_rb env r p w")
     (auto simp: digest_def calculate_sha256_Inl calculate_sha256_Inr open_rb_def
        split: option.splits node.splits if_splits)

lemma create_directory_basic:
  "source (create_directory env d w) = source w \<and>
   failed w \<le> failed (create_directory env d w) \<and>
   count (create_directory env d w) - int (attempts (create_directory env d w))
     = count w - int (attempts w) \<and>
   (wf_tree (replica w) \<longrightarrow> wf_tree (replica (create_directory env d w)))"
  by (rule create_directory_cases[of env d w]) (auto intro: wf_tree_makedirs)

lemma copy_file_basic:
  "source (copy_file env s d dd w) = source w \<and>
   failed w \<le> failed (copy_file env s d dd w) \<and>
   count (copy_file env s d dd w) - int (attempts (copy_file env s d dd w))
     = count w - int (attempts w) \<and>
   (wf_tree (replica w) \<longrightarrow> wf_tree (replica (copy_file env s d dd w)))"
  by (rule copy_file_cases[of env s w d dd]) (auto intro: wf_tree_write_file)

lemma remove_file_skip:
  "path_exists (source w) (d @ [f]) \<Longrightarrow> remove_file env d d w f = w"
  by (simp add: remove_file_def)

lemma remove_file_basic:
  "source (remove_file env d d w f) = source w \<and>
   failed w \<le> failed (remove_file env d d w f) \<and>
   count (remove_file env d d w f) - int (attempts (remove_file env d d w f))
     = count w - int (attempts w) \<and>
   (wf_tree (replica w) \<longrightarrow> wf_tree (replica (remove_file env d d w f)))"
proof (cases "path_exists (source w) (d @ [f])")
  case True
  then show ?thesis by (simp add: remove_file_skip)
next
  case False
  then show ?thesis
    by (rule remove_cases[of w d f env]) (auto intro: wf_tree_delete_at)
qed

lemma remove_directory_basic:
  "source (remove_directory env d w) = source w \<and>
   failed w \<le> failed (remove_directory env d w) \<and>
   count (remove_directory env d w) - int (attempts (remove_directory env d w))
     = count w - int (attempts w) \<and>
   (wf_tree (replica w) \<longrightarrow> wf_tree (replica (remove_directory env d w)))"
  by (rule rmtree_cases[of env d w]) (auto intro: wf_tree_delete_at)

lemma add_file_basic:
  "source (add_file env d d w f) = source w \<and>
   failed w \<le> failed (add_file env d d w f) \<and>
   count (add_file env d d w f) - int (attempts (add_file env d d w f))
     = count w - int (attempts w) \<and>
   (wf_tree (replica w) \<longrightarrow> wf_tree (replica (add_file env d d w f)))"
proof -
  let ?p = "d @ [f]"
  let ?w0 = "digests_logged env ?p w"
  have f0: "failed w \<le> failed ?w0" by (simp add: failed_digests_logged)
  from copy_file_basic[of env ?p ?p d ?w0] copy_file_basic[of env ?p ?p d w] f0
  show ?thesis
    by (auto simp: add_file_eq)
qed

lemma act_basic:
  "source (act env w a) = source w \<and>
   failed w \<le> failed (act env w a) \<and>
   count (act env w a) - int (attempts (act env w a)) = count w - int (attempts w) \<and>
   (wf_tree (replica w) \<longrightarrow> wf_tree (replica (act env w a)))"
proof (cases a)
  case (MkDir d)
  then show ?thesis using create_directory_basic[of env d w] by simp
next
  case (CopyFile d f)
  then show ?thesis using add_file_basic[of env d w f] by simp
next
  case (RmFile d f)
  then show ?thesis using remove_file_basic[of env d w f] by simp
next
  case (RmDir d)
  then show ?thesis using remove_directory_basic[of env d w] by simp
qed

lemma act_source: "source (act env w a) = source w"
  using act_basic[of env w a] by simp

lemma act_failed_mono: "failed w \<le> failed (act env w a)"
  using act_basic[of env w a] by simp

lemma act_count_attempts:
  "count (act env w a) - int (attempts (act env w a)) = count w - int (attempts w)"
  using act_basic[of env w a] by simp

lemma act_wf: "wf_tree (replica w) \<Longrightarrow> wf_tree (replica (act env w a))"
  using act_basic[of env w a] by simp

lemma foldl_act_source: "source (foldl (act env) w as) = source w"
  by (induction as arbitrary: w) (auto simp: act_source)

lemma foldl_act_failed_mono: "failed w \<le> failed (foldl (act env) w as)"
proof (induction as arbitrary: w)
  case (Cons a as)
  have "failed w \<le> failed (act env w a)" by (rule act_failed_mono)
  also have "\<dots> \<le> failed (foldl (act env) (act env w a) as)" by (rule Cons.IH)
  finally show ?case by simp
qed simp

lemma foldl_act_count_attempts:
  "count (foldl (act env) w as) - int (attempts (foldl (act env) w as)) = count w - int (attempts w)"
  by (induction as arbitrary: w) (auto simp: act_count_attempts)

lemma foldl_act_wf: "wf_tree (replica w) \<Longrightarrow> wf_tree (replica (foldl (act env) w as))"
  by (induction as arbitrary: w) (auto simp: act_wf)

text \<open>
  When a run of steps logs no failure, no step of it does, and an invariant of the
  failure-free steps holds at the end.
\<close>

lemma foldl_act_Cons_failed:
  assumes "failed (foldl (act env) w (a # as)) = failed w"
  shows "failed (act env w a) = failed w"
    and "failed (foldl (act env) (act env w a) as) = failed (act env w a)"
proof -
  have 1: "failed w \<le> failed (act env w a)" by (rule act_failed_mono)
  have 2: "failed (act env w a) \<le> failed (foldl (act env) (act env w a) as)"
    by (rule foldl_act_failed_mono)
  from assms 1 2 show "failed (act env w a) = failed w" by simp
  from assms 1 2 show "failed (foldl (act env) (act env w a) as) = failed (act env w a)" by simp
qed

lemma foldl_act_invariant:
  assumes "failed (foldl (act env) w as) = failed w" and "I w"
    and "\<And>w a. a \<in> set as \<Longrightarrow> I w \<Longrightarrow> failed (act env w a) = failed w \<Longrightarrow> I (act env w a)"
  shows "I (foldl (act env) w as)"
  using assms
proof (induction as arbitrary: w)
  case (Cons a as)
  from foldl_act_Cons_failed[OF Cons.prems(1)]
  have 1: "failed (act env w a) = failed w"
    and 2: "failed (foldl (act env) (act env w a) as) = failed (act env w a)" .
  have "I (act env w a)" using Cons.prems(2,3) 1 by simp
  from Cons.IH[OF 2 this] Cons.prems(3) show ?case by simp
qed simp

lemma foldl_act_established:
  assumes nf: "failed (foldl (act env) w as) = failed w" and a: "a \<in> set as" and I: "I w"
    and inv: "\<And>w b. b \<in> set as \<Longrightarrow> I w \<Longrightarrow> failed (act env w b) = failed w \<Longrightarrow> I (act env w b)"
    and est: "\<And>w. I w \<Longrightarrow> failed (act env w a) = failed w \<Longrightarrow> Q (act env w a)"
    and pres: "\<And>w b. b \<in> set as \<Longrightarrow> I w \<Longrightarrow> Q w \<Longrightarrow> failed (act env w b) = failed w
                 \<Longrightarrow> Q (act env w b)"
  shows "Q (foldl (act env) w as)"
proof -
  from a obtain xs ys where as: "as = xs @ a # ys" by (auto simp: in_set_conv_decomp)
  let ?w1 = "foldl (act env) w xs"
  let ?w2 = "act env ?w1 a"
  have m1: "failed w \<le> failed ?w1" by (rule foldl_act_failed_mono)
  have m2: "failed ?w1 \<le> failed ?w2" by (rule act_failed_mono)
  have m3: "failed ?w2 \<le> failed (foldl (act env) ?w2 ys)" by (rule foldl_act_failed_mono)
  from nf have e: "failed (foldl (act env) ?w2 ys) = failed w" by (simp add: as)
  from m1 m2 m3 e have f1: "failed ?w1 = failed w" and f2: "failed ?w2 = failed ?w1"
    and f3: "failed (foldl (act env) ?w2 ys) = failed ?w2" by simp_all
  have I1: "I ?w1"
    by (rule foldl_act_invariant[where I=I, OF f1 I]) (auto simp: as intro: inv)
  have Q2: "Q ?w2" and I2: "I ?w2" using est[OF I1 f2] inv[OF _ I1 f2] by (auto simp: as)
  have "I (foldl (act env) ?w2 ys) \<and> Q (foldl (act env) ?w2 ys)"
    by (rule foldl_act_invariant[where I="\<lambda>w. I w \<and> Q w", OF f3])
       (auto simp: as I2 Q2 intro: inv pres)
  then show ?thesis by (simp add: as)
qed

subsection \<open>Steps that log no failure\<close>

lemma not_isdir_if_absent: "\<not> path_exists t p \<Longrightarrow> \<not> isdir t p"
  by (simp add: isdir_def path_exists_entry_at)

lemma act_MkDir_nf:
  assumes "failed (act env w (MkDir d)) = failed w"
  shows "path_exists (replica (act env w (MkDir d))) d"
    and "entry_at (replica (act env w (MkDir d))) q = entry_at (replica w) q \<or>
         entry_at (replica w) q = None \<and> entry_at (replica (act env w (MkDir d))) q = Some KDir"
proof -
  have "path_exists (replica (act env w (MkDir d))) d \<and>
        (entry_at (replica (act env w (MkDir d))) q = entry_at (replica w) q \<or>
         entry_at (replica w) q = None \<and> entry_at (replica (act env w (MkDir d))) q = Some KDir)"
  proof (cases "path_exists (replica w) d")
    case True
    then show ?thesis by simp
  next
    case False
    show ?thesis
    proof (rule create_directory_cases[of env d w])
      fix t
      assume m: "makedirs d (replica w) = Inr t"
        and c: "create_directory env d w
           = response_message (Directory_created d) ''info'' (w\<lparr>count := count w + 1, replica := t\<rparr>)"
      have r: "replica (act env w (MkDir d)) = t" using False c by simp
      show ?thesis
        unfolding r using makedirs_entry_at[OF m, of q] makedirs_entry_at[OF m, of d]
        by (auto simp: path_exists_entry_at)
    next
      fix e
      assume "create_directory env d w
           = response_message (Error_creating d e) ''warning'' (w\<lparr>count := count w + 1\<rparr>)"
      with assms False show ?thesis by simp
    qed
  qed
  then show "path_exists (replica (act env w (MkDir d))) d"
    and "entry_at (replica (act env w (MkDir d))) q = entry_at (replica w) q \<or>
         entry_at (replica w) q = None \<and> entry_at (replica (act env w (MkDir d))) q = Some KDir"
    by simp_all
qed

lemma copy_file_nf:
  assumes nf: "failed (copy_file env p p d w) = failed w"
    and src: "lookup (source w) p = Some (File c m)"
    and nd: "\<not> isdir (replica w) p"
  shows "entry_at (replica (copy_file env p p d w)) q
         = (if q = p then Some (KFile c m) else entry_at (replica w) q)"
proof (rule copy_file_cases[of env p w p d])
  fix c' m' t
  assume l: "lookup (source w) p = Some (File c' m')"
    and wr: "write_file (copy_target (replica w) p p) c' m' (replica w) = Inr t"
    and c: "copy_file env p p d w
           = response_message (File_copied p) ''info'' (w\<lparr>count := count w + 1, replica := t\<rparr>)"
  from l src have [simp]: "c' = c" "m' = m" by simp_all
  from nd have "copy_target (replica w) p p = p" by (simp add: copy_target_def)
  with wr have "write_file p c m (replica w) = Inr t" by simp
  from write_file_entry_at[OF this, of q] show ?thesis by (simp add: c)
next
  fix e
  assume "copy_file env p p d w
           = response_message (Error_copying p d e) ''warning'' (w\<lparr>count := count w + 1\<rparr>)"
  with nf show ?thesis by simp
qed

lemma isdir_entry_KFile: "entry_at t p = Some (KFile c m) \<Longrightarrow> \<not> isdir t p"
  by (simp add: isdir_def)

lemma lookup_File_entry_at: "lookup t p = Some (File c m) \<longleftrightarrow> entry_at t p = Some (KFile c m)"
  by (cases "lookup t p"; cases "the (lookup t p)") (auto simp: entry_at_def)

lemma act_CopyFile_nf:
  assumes nf: "failed (act env w (CopyFile d f)) = failed w"
    and src: "lookup (source w) (d @ [f]) = Some (File c m)"
  shows "\<exists>c' m'. entry_at (replica (act env w (CopyFile d f))) (d @ [f]) = Some (KFile c' m') \<and>
                 sha256_hex c' = sha256_hex c"
    and "q \<noteq> d @ [f] \<Longrightarrow> entry_at (replica (act env w (CopyFile d f))) q = entry_at (replica w) q"
proof -
  let ?p = "d @ [f]"
  let ?w0 = "digests_logged env ?p w"
  let ?w' = "act env w (CopyFile d f)"
  have "(\<exists>c' m'. entry_at (replica ?w') ?p = Some (KFile c' m') \<and> sha256_hex c' = sha256_hex c) \<and>
        (q \<noteq> ?p \<longrightarrow> entry_at (replica ?w') q = entry_at (replica w) q)"
  proof (cases "path_exists (replica w) ?p")
    case False
    then have w': "?w' = copy_file env ?p ?p d w" by (simp add: add_file_eq)
    from nf have nf': "failed (copy_file env ?p ?p d w) = failed w" by (simp only: w')
    have "\<not> isdir (replica w) ?p" using False by (rule not_isdir_if_absent)
    from copy_file_nf[OF nf' src this]
    have "entry_at (replica ?w') x = (if x = ?p then Some (KFile c m) else entry_at (replica w) x)" for x
      by (simp only: w')
    then show ?thesis by simp
  next
    case True
    have f0: "failed w \<le> failed ?w0" by (simp add: failed_digests_logged)
    have f1: "failed ?w0 \<le> failed ?w'"
      using True copy_file_basic[of env ?p ?p d ?w0] by (simp add: add_file_eq)
    from nf f0 f1 have e0: "failed ?w0 = failed w" and e1: "failed ?w' = failed ?w0" by simp_all
    from e0 have ds: "digest env Source ?p w \<noteq> None" and dr: "digest env Replica ?p w \<noteq> None"
      by (auto simp: failed_digests_logged split: if_splits)
    then have w0: "?w0 = w" by (rule digests_logged_id)
    from ds src have hs: "digest env Source ?p w = Some (sha256_hex c)"
      by (auto simp: digest_Some_iff tree_def)
    from dr obtain c' m' where rep: "lookup (replica w) ?p = Some (File c' m')"
      and hr: "digest env Replica ?p w = Some (sha256_hex c')"
      by (auto simp: digest_Some_iff tree_def)
    from rep have er: "entry_at (replica w) ?p = Some (KFile c' m')"
      by (simp add: lookup_File_entry_at)
    show ?thesis
    proof (cases "sha256_hex c = sha256_hex c'")
      case True
      with \<open>path_exists (replica w) ?p\<close> hs hr w0 have "?w' = w" by (simp add: add_file_eq)
      with er True show ?thesis by simp
    next
      case False
      with \<open>path_exists (replica w) ?p\<close> hs hr w0 have w': "?w' = copy_file env ?p ?p d w"
        by (simp add: add_file_eq)
      from nf have nf': "failed (copy_file env ?p ?p d w) = failed w" by (simp only: w')
      have "\<not> isdir (replica w) ?p" using er by (rule isdir_entry_KFile)
      from copy_file_nf[OF nf' src this]
      have "entry_at (replica ?w') x = (if x = ?p then Some (KFile c m) else entry_at (replica w) x)" for x
        by (simp only: w')
      then show ?thesis by simp
    qed
  qed
  then show "\<exists>c' m'. entry_at (replica ?w') ?p = Some (KFile c' m') \<and> sha256_hex c' = sha256_hex c"
    and "q \<noteq> ?p \<Longrightarrow> entry_at (replica ?w') q = entry_at (replica w) q"
    by simp_all
qed

lemma act_CopyFile_noop:
  assumes nf: "failed (act env w (CopyFile d f)) = failed w"
    and src: "lookup (source w) (d @ [f]) = Some (File c m)"
    and rep: "entry_at (replica w) (d @ [f]) = Some (KFile c' m')"
    and eq: "sha256_hex c' = sha256_hex c"
  shows "act env w (CopyFile d f) = w"
proof -
  let ?p = "d @ [f]"
  let ?w0 = "digests_logged env ?p w"
  let ?w' = "act env w (CopyFile d f)"
  from rep have ex: "path_exists (replica w) ?p" by (simp add: path_exists_entry_at)
  have f0: "failed w \<le> failed ?w0" by (simp add: failed_digests_logged)
  have f1: "failed ?w0 \<le> failed ?w'"
    using ex copy_file_basic[of env ?p ?p d ?w0] by (simp add: add_file_eq)
  from nf f0 f1 have e0: "failed ?w0 = failed w" by simp
  then have ds: "digest env Source ?p w \<noteq> None" and dr: "digest env Replica ?p w \<noteq> None"
    by (auto simp: failed_digests_logged split: if_splits)
  then have w0: "?w0 = w" by (rule digests_logged_id)
  from ds src have hs: "digest env Source ?p w = Some (sha256_hex c)"
    by (auto simp: digest_Some_iff tree_def)
  from dr rep have hr: "digest env Replica ?p w = Some (sha256_hex c')"
    by (auto simp: digest_Some_iff tree_def lookup_File_entry_at)
  from ex hs hr w0 eq show ?thesis by (simp add: add_file_eq)
qed

lemma act_RmFile_nf:
  assumes "failed (act env w (RmFile d f)) = failed w"
  shows "entry_at (replica (act env w (RmFile d f))) q
         = (if \<not> path_exists (source w) (d @ [f]) \<and> prefix (d @ [f]) q then None
            else entry_at (replica w) q)"
proof (cases "path_exists (source w) (d @ [f])")
  case True
  then show ?thesis by (simp add: remove_file_skip)
next
  case False
  then show ?thesis
  proof (rule remove_cases[of w d f env])
    fix c m t
    assume del: "delete_at (d @ [f]) (replica w) = Some t"
      and r: "remove_file env d d w f
           = response_message (File_removed (d @ [f])) ''info'' (w\<lparr>count := count w + 1, replica := t\<rparr>)"
    from delete_at_entry_at[OF del, of q] False show ?thesis by (simp add: r)
  next
    fix e
    assume "remove_file env d d w f
           = response_message (Error_removing (d @ [f]) e) ''warning'' (w\<lparr>count := count w + 1\<rparr>)"
    with assms show ?thesis by simp
  qed
qed

lemma act_RmDir_nf:
  assumes "failed (act env w (RmDir d)) = failed w"
  shows "entry_at (replica (act env w (RmDir d))) q
         = (if \<not> path_exists (source w) d \<and> prefix d q then None else entry_at (replica w) q)"
proof (cases "path_exists (source w) d")
  case True
  then show ?thesis by simp
next
  case False
  show ?thesis
  proof (rule rmtree_cases[of env d w])
    fix es t
    assume del: "delete_at d (replica w) = Some t"
      and r: "remove_directory env d w
           = response_message (Directory_removed d) ''info'' (w\<lparr>count := count w + 1, replica := t\<rparr>)"
    from delete_at_entry_at[OF del, of q] False show ?thesis by (simp add: r)
  next
    fix e
    assume "remove_directory env d w
           = response_message (Error_removing d e) ''warning'' (w\<lparr>count := count w + 1\<rparr>)"
    with assms False show ?thesis by simp
  qed
qed

subsection \<open>Which steps a pass takes\<close>

lemma walk_root_iff:
  assumes "\<forall>p. \<not> bad p" and "wf_tree t"
  shows "item \<in> set (os_walk bad td [] t) \<longleftrightarrow>
         (\<exists>d es. lookup t d = Some (Dir es) \<and> item = (d, dirnames es, filenames es))"
  using walk_sound(1)[OF assms(2), of item bad td "[]"] walk_complete(1)[OF assms(1), of t _ _ "[]" td]
  by auto

lemma lookup_child:
  "lookup t d = Some (Dir es) \<Longrightarrow> lookup t (d @ [f]) = map_of es f"
  by (simp add: lookup_append split: option.splits)

lemma isfile_child:
  assumes "wf_tree t" and "lookup t d = Some (Dir es)"
  shows "f \<in> set (filenames es) \<longleftrightarrow> isfile t (d @ [f])"
proof -
  from wf_tree_lookup[OF assms] have "distinct (map fst es)" by simp
  then show ?thesis
    by (simp add: filenames_iff isfile_iff lookup_child[OF assms(2)])
qed

lemma isfile_parent:
  assumes "isfile t (d @ [f])"
  shows "isdir t d"
proof -
  from assms obtain c m where l: "lookup t (d @ [f]) = Some (File c m)" by (auto simp: isfile_iff)
  then obtain n where n: "lookup t d = Some n" and "lookup n [f] = Some (File c m)"
    by (auto simp: lookup_append split: option.splits)
  then show ?thesis by (cases n) (auto simp: isdir_iff)
qed

lemma in_remove_actions:
  "a \<in> set (remove_actions item) \<longleftrightarrow>
     a = RmDir (fst item) \<or> (\<exists>f\<in>set (snd (snd item)). a = RmFile (fst item) f)"
  by (cases item) (auto simp: remove_actions_def)

lemma in_add_actions:
  "a \<in> set (add_actions item) \<longleftrightarrow>
     a = MkDir (fst item) \<or> (\<exists>f\<in>set (snd (snd item)). a = CopyFile (fst item) f)"
  by (cases item) (auto simp: add_actions_def)

lemma remove_steps_iff:
  assumes "\<forall>p. \<not> bad p" and "wf_tree t"
  shows "a \<in> set (concat (map remove_actions (os_walk bad td [] t))) \<longleftrightarrow>
         (\<exists>d. a = RmDir d \<and> isdir t d) \<or> (\<exists>d f. a = RmFile d f \<and> isfile t (d @ [f]))"
    (is "?L \<longleftrightarrow> ?R")
proof
  assume ?L
  then obtain item where i: "item \<in> set (os_walk bad td [] t)" and a: "a \<in> set (remove_actions item)"
    by auto
  from i obtain d es where l: "lookup t d = Some (Dir es)" and it: "item = (d, dirnames es, filenames es)"
    by (auto simp: walk_root_iff[OF assms])
  from a show ?R
    unfolding in_remove_actions it
    using l isfile_child[OF assms(2) l] by (auto simp: isdir_iff)
next
  assume ?R
  then show ?L
  proof
    assume "\<exists>d. a = RmDir d \<and> isdir t d"
    then obtain d es where a: "a = RmDir d" and l: "lookup t d = Some (Dir es)"
      by (auto simp: isdir_iff)
    then have "(d, dirnames es, filenames es) \<in> set (os_walk bad td [] t)"
      by (auto simp: walk_root_iff[OF assms])
    then show ?L using a by (force simp: in_remove_actions)
  next
    assume "\<exists>d f. a = RmFile d f \<and> isfile t (d @ [f])"
    then obtain d f where a: "a = RmFile d f" and f: "isfile t (d @ [f])" by blast
    from isfile_parent[OF f] obtain es where l: "lookup t d = Some (Dir es)"
      by (auto simp: isdir_iff)
    then have "(d, dirnames es, filenames es) \<in> set (os_walk bad td [] t)"
      by (auto simp: walk_root_iff[OF assms])
    moreover have "f \<in> set (filenames es)" using f isfile_child[OF assms(2) l] by simp
    ultimately show ?L using a by (force simp: in_remove_actions)
  qed
qed

lemma add_steps_iff:
  assumes "\<forall>p. \<not> bad p" and "wf_tree t"
  shows "a \<in> set (concat (map add_actions (os_walk bad td [] t))) \<longleftrightarrow>
         (\<exists>d. a = MkDir d \<and> isdir t d) \<or> (\<exists>d f. a = CopyFile d f \<and> isfile t (d @ [f]))"
    (is "?L \<longleftrightarrow> ?R")
proof
  assume ?L
  then obtain item where i: "item \<in> set (os_walk bad td [] t)" and a: "a \<in> set (add_actions item)"
    by auto
  from i obtain d es where l: "lookup t d = Some (Dir es)" and it: "item = (d, dirnames es, filenames es)"
    by (auto simp: walk_root_iff[OF assms])
  from a show ?R
    unfolding in_add_actions it
    using l isfile_child[OF assms(2) l] by (auto simp: isdir_iff)
next
  assume ?R
  then show ?L
  proof
    assume "\<exists>d. a = MkDir d \<and> isdir t d"
    then obtain d es where a: "a = MkDir d" and l: "lookup t d = Some (Dir es)"
      by (auto simp: isdir_iff)
    then have "(d, dirnames es, filenames es) \<in> set (os_walk bad td [] t)"
      by (auto simp: walk_root_iff[OF assms])
    then show ?L using a by (force simp: in_add_actions)
  next
    assume "\<exists>d f. a = CopyFile d f \<and> isfile t (d @ [f])"
    then obtain d f where a: "a = CopyFile d f" and f: "isfile t (d @ [f])" by blast
    from isfile_parent[OF f] obtain es where l: "lookup t d = Some (Dir es)"
      by (auto simp: isdir_iff)
    then have "(d, dirnames es, filenames es) \<in> set (os_walk bad td [] t)"
      by (auto simp: walk_root_iff[OF assms])
    moreover have "f \<in> set (filenames es)" using f isfile_child[OF assms(2) l] by simp
    ultimately show ?L using a by (force simp: in_add_actions)
  qed
qed

subsection \<open>The subtractive pass without failures\<close>

lemma act_removal_nf:
  assumes "removal a" and "failed (act env w a) = failed w"
  shows "entry_at (replica (act env w a)) q
         = (if kills (source w) a q then None else entry_at (replica w) q)"
  using assms act_RmFile_nf[of env w _ _ q] act_RmDir_nf[of env w _ q]
  by (cases a) (simp_all add: kills_def)

lemma foldl_removal_nf:
  assumes "failed (foldl (act env) w as) = failed w" and "\<forall>a\<in>set as. removal a"
  shows "entry_at (replica (foldl (act env) w as)) q
         = (if \<exists>a\<in>set as. kills (source w) a q then None else entry_at (replica w) q)"
  using assms
proof (induction as arbitrary: w)
  case Nil
  then show ?case by simp
next
  case (Cons a as)
  from foldl_act_Cons_failed[OF Cons.prems(1)]
  have 1: "failed (act env w a) = failed w"
    and 2: "failed (foldl (act env) (act env w a) as) = failed (act env w a)" .
  from Cons.prems(2) have ra: "removal a" and ras: "\<forall>a\<in>set as. removal a" by simp_all
  have "entry_at (replica (foldl (act env) (act env w a) as)) q
        = (if \<exists>b\<in>set as. kills (source w) b q then None else entry_at (replica (act env w a)) q)"
    using Cons.IH[OF 2 ras] by (simp add: act_source)
  also have "entry_at (replica (act env w a)) q
        = (if kills (source w) a q then None else entry_at (replica w) q)"
    by (rule act_removal_nf[OF ra 1])
  finally show ?case by auto
qed

lemma path_exists_Nil [simp]: "path_exists t []"
  by (simp add: path_exists_def)

lemma remove_pass_nf:
  assumes wf: "wf_tree (replica w)"
    and nobad: "\<forall>p. \<not> scandir_fails env Replica p"
    and ret: "remove_files_and_directories env w = Returned w'"
    and nf: "failed w' = failed w"
  shows "entry_at (replica w') q
         = (if path_exists (source w) q then entry_at (replica w) q else None)"
proof -
  let ?as = "concat (map remove_actions (os_walk (scandir_fails env Replica) False [] (replica w)))"
  have w': "w' = foldl (act env) w ?as" by (rule remove_pass_fold[OF ret])
  have mem: "a \<in> set ?as \<longleftrightarrow>
         (\<exists>d. a = RmDir d \<and> isdir (replica w) d) \<or> (\<exists>d f. a = RmFile d f \<and> isfile (replica w) (d @ [f]))" for a
    by (rule remove_steps_iff[OF nobad wf])
  have rem: "\<forall>a\<in>set ?as. removal a" by (auto simp: remove_actions_def)
  from nf have nf': "failed (foldl (act env) w ?as) = failed w" by (simp only: w')
  have e: "entry_at (replica w') q
        = (if \<exists>a\<in>set ?as. kills (source w) a q then None else entry_at (replica w) q)"
    unfolding w' by (rule foldl_removal_nf[OF nf' rem])
  show ?thesis
  proof (cases "entry_at (replica w) q")
    case None
    with e show ?thesis by simp
  next
    case (Some k)
    have "(\<exists>a\<in>set ?as. kills (source w) a q) \<longleftrightarrow> \<not> path_exists (source w) q"
    proof
      assume "\<exists>a\<in>set ?as. kills (source w) a q"
      then obtain a where "\<not> path_exists (source w) (target a)" "prefix (target a) q"
        by (auto simp: kills_def)
      then show "\<not> path_exists (source w) q"
        by (auto simp: prefix_def dest: path_exists_prefix)
    next
      assume n: "\<not> path_exists (source w) q"
      show "\<exists>a\<in>set ?as. kills (source w) a q"
      proof (cases k)
        case KDir
        with Some have "isdir (replica w) q" by (simp add: isdir_def)
        then have "RmDir q \<in> set ?as" using mem[of "RmDir q"] by blast
        moreover have "kills (source w) (RmDir q) q" using n by (simp add: kills_def)
        ultimately show ?thesis by blast
      next
        case (KFile c m)
        with Some have f: "isfile (replica w) q" by (simp add: isfile_def)
        from n have "q \<noteq> []" by auto
        then obtain d x where q: "q = d @ [x]" by (cases q rule: rev_cases) auto
        from f have "RmFile d x \<in> set ?as" using mem[of "RmFile d x"] by (simp only: q) blast
        moreover have "kills (source w) (RmFile d x) q" using n by (simp add: kills_def q)
        ultimately show ?thesis by blast
      qed
    qed
    with e show ?thesis by simp
  qed
qed


lemmas run_defs = sync_folders_def add_files_and_directories_def remove_files_and_directories_def
  add_body_def remove_body_def add_file_def remove_file_def create_directory_def copy_file_def
  remove_directory_def os_makedirs_def shutil_copy2_def os_remove_def shutil_rmtree_def
  response_message_def logging_def print_def no_faults_def path_exists_def isdir_def
  entry_at_def dirnames_def filenames_def basename_def Let_def


subsection \<open>The additive pass without failures\<close>

lemma isfile_not_isdir: "isfile t p \<Longrightarrow> \<not> isdir t p"
  by (auto simp: isfile_def isdir_def split: option.splits entry.splits)

lemma addition_step_nf:
  assumes a: "addition (source w) a" and nf: "failed (act env w a) = failed w"
  shows "entry_at (replica (act env w a)) q = entry_at (replica w) q \<or>
         entry_at (replica w) q = None \<and> entry_at (replica (act env w a)) q = Some KDir \<or>
         q = target a \<and> isfile (source w) q \<and>
           (\<exists>c m. lookup (source w) q = Some (File c m) \<and> matches c (replica (act env w a)) q)"
proof -
  from a consider d where "a = MkDir d" | d f where "a = CopyFile d f" "isfile (source w) (d @ [f])"
    by (auto simp: addition_def)
  then show ?thesis
  proof cases
    case 1
    from nf have nf1: "failed (act env w (MkDir d)) = failed w" unfolding 1 .
    from act_MkDir_nf(2)[OF nf1, of q] show ?thesis unfolding 1 by blast
  next
    case 2
    from 2(2) obtain c m where src: "lookup (source w) (d @ [f]) = Some (File c m)"
      by (auto simp: isfile_iff)
    from nf have nf': "failed (act env w (CopyFile d f)) = failed w" unfolding 2(1) .
    show ?thesis
    proof (cases "q = d @ [f]")
      case True
      with act_CopyFile_nf(1)[OF nf' src] 2(2) src show ?thesis
        unfolding 2(1) by (auto simp del: act.simps simp: matches_def)
    next
      case False
      with act_CopyFile_nf(2)[OF nf' src False] show ?thesis unfolding 2(1) by blast
    qed
  qed
qed

lemma addition_step_exists:
  assumes "addition (source w) a" and "failed (act env w a) = failed w"
    and "path_exists (replica w) q"
  shows "path_exists (replica (act env w a)) q"
  using addition_step_nf[OF assms(1,2), of q] assms(3)
  by (auto simp: path_exists_entry_at matches_def)

lemma addition_step_matches:
  assumes a: "addition (source w) a" and nf: "failed (act env w a) = failed w"
    and src: "lookup (source w) p = Some (File c m)" and m: "matches c (replica w) p"
  shows "matches c (replica (act env w a)) p"
  using addition_step_nf[OF a nf, of p] src m
  by (auto simp: matches_def)

lemma addition_step_not_isfile:
  assumes a: "addition (source w) a" and nf: "failed (act env w a) = failed w"
    and src: "isdir (source w) p" and m: "\<not> isfile (replica w) p"
  shows "\<not> isfile (replica (act env w a)) p"
proof -
  from addition_step_nf[OF a nf, of p] src
  have "entry_at (replica (act env w a)) p = entry_at (replica w) p \<or>
        entry_at (replica (act env w a)) p = Some KDir"
    using isfile_not_isdir by blast
  with m show ?thesis by (auto simp: isfile_def)
qed

lemma add_pass_nf:
  assumes wf: "wf_tree (source w)"
    and nobad: "\<forall>p. \<not> scandir_fails env Source p"
    and ret: "add_files_and_directories env w = Returned w'"
    and nf: "failed w' = failed w"
  shows "source w' = source w"
    and "lookup (source w) p = Some (File c m) \<Longrightarrow> p \<noteq> [] \<Longrightarrow> matches c (replica w') p"
    and "isdir (source w) p \<Longrightarrow> path_exists (replica w') p"
    and "isdir (source w) p \<Longrightarrow> \<not> isfile (replica w) p \<Longrightarrow> isdir (replica w') p"
    and "wf_tree (replica w) \<Longrightarrow> wf_tree (replica w')"
proof -
  let ?src = "source w"
  let ?as = "concat (map add_actions (os_walk (scandir_fails env Source) True [] ?src))"
  have w': "w' = foldl (act env) w ?as" by (rule add_pass_fold[OF ret])
  have mem: "a \<in> set ?as \<longleftrightarrow> addition ?src a" for a
    unfolding addition_def by (rule add_steps_iff[OF nobad wf])
  from nf have nf': "failed (foldl (act env) w ?as) = failed w" by (simp only: w')
  let ?I = "\<lambda>v::world. source v = ?src"
  have inv: "?I (act env v b)" if "?I v" for v b
    using that by (simp add: act_source)
  show "source w' = source w" by (simp add: w' foldl_act_source)
  show "wf_tree (replica w) \<Longrightarrow> wf_tree (replica w')" by (simp add: w' foldl_act_wf)
  show "matches c (replica w') p" if src: "lookup (source w) p = Some (File c m)" and ne: "p \<noteq> []"
  proof -
    from ne obtain d f where p: "p = d @ [f]" by (cases p rule: rev_cases) auto
    from src have "isfile ?src (d @ [f])" by (auto simp: isfile_iff p)
    then have a: "CopyFile d f \<in> set ?as" using mem[of "CopyFile d f"] by (auto simp: addition_def)
    have "matches c (replica (foldl (act env) w ?as)) p"
    proof (rule foldl_act_established[where I="?I" and a="CopyFile d f", OF nf' a])
      show "?I w" by simp
    next
      fix v :: world and b assume "?I v"
      then show "?I (act env v b)" by (rule inv)
    next
      fix v :: world assume I: "?I v" and f: "failed (act env v (CopyFile d f)) = failed v"
      from src I have "lookup (source v) (d @ [f]) = Some (File c m)" by (simp add: p)
      from act_CopyFile_nf(1)[OF f this] show "matches c (replica (act env v (CopyFile d f))) p"
        by (simp add: matches_def p)
    next
      fix v :: world and b assume b: "b \<in> set ?as" and I: "?I v" and Q: "matches c (replica v) p"
        and f: "failed (act env v b) = failed v"
      from b I have "addition (source v) b" using mem[of b] by simp
      from addition_step_matches[OF this f _ Q] src I
      show "matches c (replica (act env v b)) p" by simp
    qed
    then show ?thesis by (simp only: w')
  qed
  have ex: "path_exists (replica (foldl (act env) w ?as)) p" if d: "isdir (source w) p"
  proof -
    from d have a: "MkDir p \<in> set ?as" using mem[of "MkDir p"] by (auto simp: addition_def)
    show ?thesis
    proof (rule foldl_act_established[where I="?I" and a="MkDir p", OF nf' a])
      show "?I w" by simp
    next
      fix v :: world and b assume "?I v"
      then show "?I (act env v b)" by (rule inv)
    next
      fix v :: world assume "failed (act env v (MkDir p)) = failed v"
      then show "path_exists (replica (act env v (MkDir p))) p" by (rule act_MkDir_nf(1))
    next
      fix v :: world and b assume b: "b \<in> set ?as" and I: "?I v" and Q: "path_exists (replica v) p"
        and f: "failed (act env v b) = failed v"
      from b I have "addition (source v) b" using mem[of b] by simp
      from addition_step_exists[OF this f Q]
      show "path_exists (replica (act env v b)) p" .
    qed
  qed
  then show "isdir (source w) p \<Longrightarrow> path_exists (replica w') p" by (simp only: w')
  show "isdir (replica w') p" if d: "isdir (source w) p" and nfile: "\<not> isfile (replica w) p"
  proof -
    have "source (foldl (act env) w ?as) = ?src \<and> \<not> isfile (replica (foldl (act env) w ?as)) p"
    proof (rule foldl_act_invariant[where I="\<lambda>v::world. source v = ?src \<and> \<not> isfile (replica v) p", OF nf'])
      show "source w = ?src \<and> \<not> isfile (replica w) p" using nfile by simp
    next
      fix v :: world and b assume b: "b \<in> set ?as" and I: "source v = ?src \<and> \<not> isfile (replica v) p"
        and f: "failed (act env v b) = failed v"
      from b I have ad: "addition (source v) b" using mem[of b] by simp
      from d I have "isdir (source v) p" by simp
      from addition_step_not_isfile[OF ad f this] I
      show "source (act env v b) = ?src \<and> \<not> isfile (replica (act env v b)) p"
        by (simp add: act_source)
    qed
    with ex[OF d] show ?thesis
      by (auto simp: w' path_exists_entry_at isfile_def isdir_def split: entry.splits)
  qed
qed

subsection \<open>One cycle\<close>

lemma add_steps_sound:
  assumes "wf_tree t" and "a \<in> set (concat (map add_actions (os_walk bad td [] t)))"
  shows "addition t a"
proof -
  from assms(2) obtain item where i: "item \<in> set (os_walk bad td [] t)" and a: "a \<in> set (add_actions item)"
    by auto
  from walk_sound(1)[OF assms(1) i] obtain d es where l: "lookup t d = Some (Dir es)"
    and it: "item = (d, dirnames es, filenames es)" by auto
  from a show ?thesis
    unfolding in_add_actions it addition_def
    using l isfile_child[OF assms(1) l] by (auto simp: isdir_iff)
qed

lemma remove_steps_sound:
  assumes "wf_tree t" and "a \<in> set (concat (map remove_actions (os_walk bad td [] t)))"
  shows "(\<exists>d. a = RmDir d \<and> isdir t d) \<or> (\<exists>d f. a = RmFile d f \<and> isfile t (d @ [f]))"
proof -
  from assms(2) obtain item where i: "item \<in> set (os_walk bad td [] t)" and a: "a \<in> set (remove_actions item)"
    by auto
  from walk_sound(1)[OF assms(1) i] obtain d es where l: "lookup t d = Some (Dir es)"
    and it: "item = (d, dirnames es, filenames es)" by auto
  from a show ?thesis
    unfolding in_remove_actions it
    using l isfile_child[OF assms(1) l] by (auto simp: isdir_iff)
qed

lemma sync_folders_Returned:
  assumes "sync_folders env w = Returned w'"
  obtains w1 where "add_files_and_directories env w = Returned w1"
    and "remove_files_and_directories env w1 = Returned w'"
  using assms by (auto simp: sync_folders_def split: outcome.splits)

lemma add_pass_basic:
  assumes "add_files_and_directories env w = Returned w1"
  shows "source w1 = source w" and "failed w \<le> failed w1"
    and "wf_tree (replica w) \<Longrightarrow> wf_tree (replica w1)"
  using add_pass_fold[OF assms]
  by (simp_all add: foldl_act_source foldl_act_failed_mono foldl_act_wf)

lemma remove_pass_basic:
  assumes "remove_files_and_directories env w = Returned w1"
  shows "source w1 = source w" and "failed w \<le> failed w1"
    and "wf_tree (replica w) \<Longrightarrow> wf_tree (replica w1)"
  using remove_pass_fold[OF assms]
  by (simp_all add: foldl_act_source foldl_act_failed_mono foldl_act_wf)

lemma fingerprint_at_entry:
  "fingerprint_at t p = (case entry_at t p of Some (KFile c m) \<Rightarrow> Some (sha256_hex c) | _ \<Rightarrow> None)"
  by (cases "lookup t p"; cases "the (lookup t p)") (auto simp: fingerprint_at_def entry_at_def)

lemma isfile_entry: "isfile t p \<longleftrightarrow> (\<exists>c m. entry_at t p = Some (KFile c m))"
  by (auto simp: isfile_def split: option.splits entry.splits)

lemma cycle_nf:
  assumes wfs: "wf_tree (source w)" and wfr: "wf_tree (replica w)"
    and nobad: "\<forall>r p. \<not> scandir_fails env r p"
    and ret: "sync_folders env w = Returned w'"
    and nf: "failed w' = failed w"
  shows "source w' = source w" and "wf_tree (replica w')" and "in_sync (source w) (replica w')"
    and "isdir (source w) p \<Longrightarrow> \<not> isfile (replica w) p \<Longrightarrow> isdir (replica w') p"
proof -
  from ret obtain w1 where a: "add_files_and_directories env w = Returned w1"
    and r: "remove_files_and_directories env w1 = Returned w'"
    by (rule sync_folders_Returned)
  note ab = add_pass_basic[OF a] and rb = remove_pass_basic[OF r]
  from ab(2) rb(2) nf have nf1: "failed w1 = failed w" and nf2: "failed w' = failed w1" by simp_all
  from nobad have nbs: "\<forall>p. \<not> scandir_fails env Source p" and nbr: "\<forall>p. \<not> scandir_fails env Replica p"
    by simp_all
  note ap = add_pass_nf[OF wfs nbs a nf1]
  have wf1: "wf_tree (replica w1)" using ab(3) wfr by simp
  have e: "entry_at (replica w') q
           = (if path_exists (source w) q then entry_at (replica w1) q else None)" for q
    using remove_pass_nf[OF wf1 nbr r nf2, of q] by (simp add: ab(1))
  show "source w' = source w" by (simp add: rb(1) ab(1))
  show "wf_tree (replica w')" using rb(3) wf1 by simp
  have 1: "path_exists (source w) q" if "path_exists (replica w') q" for q
    using that by (auto simp: path_exists_entry_at e split: if_splits)
  have 2: "matches c (replica w') p" if "p \<noteq> []" "lookup (source w) p = Some (File c m)" for p c m
  proof -
    from that(2) have "path_exists (source w) p" by (simp add: path_exists_def)
    with ap(2)[OF that(2,1)] show ?thesis by (simp add: matches_def e)
  qed
  have 3: "path_exists (replica w') p" if "isdir (source w) p" for p
  proof -
    from that have "path_exists (source w) p" by (simp add: isdir_def path_exists_entry_at)
    with ap(3)[OF that] show ?thesis by (simp add: path_exists_entry_at e)
  qed
  from 1 2 3 show "in_sync (source w) (replica w')" unfolding in_sync_def by blast
  show "isdir (replica w') p" if d: "isdir (source w) p" and nfile: "\<not> isfile (replica w) p"
  proof -
    from d have "path_exists (source w) p" by (simp add: isdir_def path_exists_entry_at)
    with ap(4)[OF d nfile] show ?thesis by (simp add: isdir_def e)
  qed
qed

lemma foldl_fixed: "\<forall>a\<in>set as. f w a = w \<Longrightarrow> foldl f w as = w"
  by (induction as) auto

lemma cycle_in_sync_noop:
  assumes wfs: "wf_tree (source w)" and wfr: "wf_tree (replica w)"
    and sync: "in_sync (source w) (replica w)"
    and ret: "sync_folders env w = Returned w'"
    and nf: "failed w' = failed w"
  shows "w' = w"
proof -
  from ret obtain w1 where a: "add_files_and_directories env w = Returned w1"
    and r: "remove_files_and_directories env w1 = Returned w'"
    by (rule sync_folders_Returned)
  note ab = add_pass_basic[OF a] and rb = remove_pass_basic[OF r]
  from ab(2) rb(2) nf have nf1: "failed w1 = failed w" by simp
  let ?as = "concat (map add_actions (os_walk (scandir_fails env Source) True [] (source w)))"
  have w1: "w1 = foldl (act env) w ?as" by (rule add_pass_fold[OF a])
  from nf1 have nf1': "failed (foldl (act env) w ?as) = failed w" by (simp only: w1)
  have "foldl (act env) w ?as = w"
  proof (rule foldl_act_invariant[where I="\<lambda>v. v = w", OF nf1'])
    show "w = w" ..
  next
    fix v :: world and b
    assume b: "b \<in> set ?as" and v: "v = w" and f: "failed (act env v b) = failed v"
    from add_steps_sound[OF wfs b] consider d where "b = MkDir d" "isdir (source w) d"
      | d f where "b = CopyFile d f" "isfile (source w) (d @ [f])"
      by (auto simp: addition_def)
    then show "act env v b = w"
    proof cases
      case 1
      with sync have "path_exists (replica w) d" by (simp add: in_sync_def)
      then show ?thesis by (simp add: 1 v)
    next
      case 2
      from 2(2) obtain c m where src: "lookup (source w) (d @ [f]) = Some (File c m)"
        by (auto simp: isfile_iff)
      with sync have "matches c (replica w) (d @ [f])" by (simp add: in_sync_def)
      then obtain c' m' where rep: "entry_at (replica w) (d @ [f]) = Some (KFile c' m')"
        and eq: "sha256_hex c' = sha256_hex c" by (auto simp: matches_def)
      from f have f': "failed (act env w (CopyFile d f)) = failed w" unfolding v 2(1) .
      from act_CopyFile_noop[OF f' src rep eq] show ?thesis unfolding v 2(1) .
    qed
  qed
  then have w1w: "w1 = w" by (simp only: w1)
  let ?rs = "concat (map remove_actions (os_walk (scandir_fails env Replica) False [] (replica w)))"
  have w': "w' = foldl (act env) w ?rs" using remove_pass_fold[OF r] by (simp only: w1w)
  have "foldl (act env) w ?rs = w"
  proof (rule foldl_fixed, rule ballI)
    fix b assume b: "b \<in> set ?rs"
    from remove_steps_sound[OF wfr b] consider d where "b = RmDir d" "isdir (replica w) d"
      | d f where "b = RmFile d f" "isfile (replica w) (d @ [f])"
      by auto
    then show "act env w b = w"
    proof cases
      case 1
      then have "path_exists (replica w) d" by (simp add: isdir_def path_exists_entry_at)
      with sync have "path_exists (source w) d" by (simp add: in_sync_def)
      then show ?thesis by (simp add: 1)
    next
      case 2
      then have "path_exists (replica w) (d @ [f])" by (auto simp: isfile_iff path_exists_def)
      with sync have "path_exists (source w) (d @ [f])" by (simp add: in_sync_def)
      then show ?thesis by (simp add: 2 remove_file_skip)
    qed
  qed
  then show ?thesis by (simp only: w')
qed

lemma sync_w_cyc: "sync_folders no_faults (w_cyc\<lparr>count := 0\<rparr>) = Returned w_cyc1"
  by (simp add: run_defs w_cyc_def w_cyc1_def)

lemma sync_w_cyc1: "sync_folders no_faults (w_cyc1\<lparr>count := 0\<rparr>) = Returned (w_cyc1\<lparr>count := 0\<rparr>)"
  by (simp add: run_defs calculate_sha256_def open_rb_def tree_def w_cyc1_def)

lemma sync_w_conflict: "sync_folders no_faults w_conflict = Returned w_conflict"
  by (simp add: run_defs w_conflict_def)

lemma for_walk_invariant:
  assumes "\<And>i v. Q (body i v) = Q v"
  shows "for_walk raises body items w = Inr w' \<Longrightarrow> Q w' = Q w"
    and "for_walk raises body items w = Inl (e, w') \<Longrightarrow> Q w' = Q w"
  by (induction items arbitrary: w) (auto simp: assms split: if_splits)

lemma for_walk_Inl_error:
  "for_walk raises body items w = Inl (e, w') \<Longrightarrow> e = RecursionError"
  by (induction items arbitrary: w) (auto split: if_splits)

lemma for_walk_raises:
  "\<exists>i\<in>set items. raises (fst i) \<Longrightarrow> \<exists>w'. for_walk raises body items w = Inl (RecursionError, w')"
  by (induction items arbitrary: w) auto

lemma body_count_attempts:
  "count (add_body env i v) - int (attempts (add_body env i v)) = count v - int (attempts v)"
  "count (remove_body env i v) - int (attempts (remove_body env i v)) = count v - int (attempts v)"
  by (simp_all add: add_body_act remove_body_act foldl_act_count_attempts)

lemma add_pass_count_attempts:
  "count (final (add_files_and_directories env w)) - int (attempts (final (add_files_and_directories env w)))
   = count w - int (attempts w)"
proof (cases "for_walk (walk_raises env Source) (add_body env)
             (os_walk (scandir_fails env Source) True [] (source w)) w")
  case (Inl a)
  obtain e w' where a: "a = (e, w')" by (cases a)
  from for_walk_invariant(2)[where Q="\<lambda>v. count v - int (attempts v)", OF body_count_attempts(1) Inl[unfolded a]]
  show ?thesis by (simp add: add_files_and_directories_def Inl a)
next
  case (Inr w')
  from for_walk_invariant(1)[where Q="\<lambda>v. count v - int (attempts v)", OF body_count_attempts(1) Inr]
  show ?thesis by (simp add: add_files_and_directories_def Inr)
qed

lemma remove_pass_count_attempts:
  "count (final (remove_files_and_directories env w)) - int (attempts (final (remove_files_and_directories env w)))
   = count w - int (attempts w)"
proof (cases "for_walk (walk_raises env Replica) (remove_body env)
             (os_walk (scandir_fails env Replica) False [] (replica w)) w")
  case (Inl a)
  obtain e w' where a: "a = (e, w')" by (cases a)
  from for_walk_invariant(2)[where Q="\<lambda>v. count v - int (attempts v)", OF body_count_attempts(2) Inl[unfolded a]]
  show ?thesis by (simp add: remove_files_and_directories_def Inl a)
next
  case (Inr w')
  from for_walk_invariant(1)[where Q="\<lambda>v. count v - int (attempts v)", OF body_count_attempts(2) Inr]
  show ?thesis by (simp add: remove_files_and_directories_def Inr)
qed

lemma sync_count_attempts:
  "count (final (sync_folders env w)) - int (attempts (final (sync_folders env w)))
   = count w - int (attempts w)"
proof (cases "add_files_and_directories env w")
  case (Returned w1)
  with add_pass_count_attempts[of env w] remove_pass_count_attempts[of env w1]
  show ?thesis by (simp add: sync_folders_def)
next
  case (SystemExit n w1)
  with add_pass_count_attempts[of env w] show ?thesis by (simp add: sync_folders_def)
qed

lemma sync_w_one: "sync_folders env_refuse w_one = Returned w_one'"
  by (simp add: run_defs env_refuse_def w_one_def w_one'_def)

lemma sync_w_sub_unlistable: "sync_folders env_unlistable w_sub = Returned w_sub"
  by (simp add: run_defs env_unlistable_def w_sub_def)

lemma sync_w_sub_raising: "sync_folders env_raising w_sub = SystemExit 1 w_sub'"
  by (simp add: run_defs env_raising_def w_sub_def w_sub'_def)

subsection \<open>Steps in any environment\<close>

lemma write_file_target:
  "write_file p c m t = Inr t' \<Longrightarrow> entry_at t p \<noteq> Some KDir \<and> p \<noteq> [] \<and> isdir t (butlast p)"
proof (induction p c m t arbitrary: t' rule: write_file.induct)
  case (3 x c m es)
  then show ?case
    by (auto simp: entry_at_Cons_Dir isdir_def split: option.splits node.splits)
next
  case (4 x y p c m es)
  then obtain d d' where d: "map_of es x = Some d" and d': "write_file (y # p) c m d = Inr d'"
    by (auto split: option.splits sum.splits)
  from 4(1)[OF d d'] d show ?case
    by (auto simp: entry_at_Cons_Dir isdir_def)
qed auto

lemma write_file_succeeds:
  "p \<noteq> [] \<Longrightarrow> isdir t (butlast p) \<Longrightarrow> entry_at t p \<noteq> Some KDir \<Longrightarrow> \<exists>t'. write_file p c m t = Inr t'"
proof (induction p c m t rule: write_file.induct)
  case (3 x c m es)
  then show ?case
    by (cases "map_of es x"; cases "the (map_of es x)") (auto simp: entry_at_Cons_Dir)
next
  case (4 x y p c m es)
  from 4(3) obtain d where d: "map_of es x = Some d" and dd: "isdir d (butlast (y # p))"
    by (auto simp: isdir_def entry_at_Cons_Dir split: option.splits)
  from 4(4) d have "entry_at d (y # p) \<noteq> Some KDir" by (simp add: entry_at_Cons_Dir)
  from 4(1)[OF d _ dd this] d show ?case by auto
qed (auto simp: isdir_def split: if_splits)

lemma isdir_prefix: "isdir t (q @ r) \<Longrightarrow> isdir t q"
proof -
  assume "isdir t (q @ r)"
  then obtain es where l: "lookup t (q @ r) = Some (Dir es)" by (auto simp: isdir_iff)
  then obtain n where n: "lookup t q = Some n" and r: "lookup n r = Some (Dir es)"
    by (auto simp: lookup_append split: option.splits)
  then show ?thesis by (cases n) (auto simp: isdir_iff split: if_splits)
qed

lemma act_MkDir_frame:
  "entry_at (replica (act env w (MkDir d))) q = entry_at (replica w) q \<or>
   entry_at (replica w) q = None \<and> prefix q d \<and> entry_at (replica (act env w (MkDir d))) q = Some KDir"
proof (cases "path_exists (replica w) d")
  case True
  then show ?thesis by simp
next
  case False
  show ?thesis
  proof (rule create_directory_cases[of env d w])
    fix t
    assume m: "makedirs d (replica w) = Inr t"
      and c: "create_directory env d w
         = response_message (Directory_created d) ''info'' (w\<lparr>count := count w + 1, replica := t\<rparr>)"
    have r: "replica (act env w (MkDir d)) = t" using False c by simp
    show ?thesis unfolding r using makedirs_entry_at[OF m, of q] by auto
  next
    fix e
    assume "create_directory env d w
         = response_message (Error_creating d e) ''warning'' (w\<lparr>count := count w + 1\<rparr>)"
    with False show ?thesis by simp
  qed
qed

lemma copy_file_frame:
  "entry_at (replica (copy_file env p p d w)) q = entry_at (replica w) q \<or>
   q = copy_target (replica w) p p \<and> entry_at (replica w) q \<noteq> Some KDir \<and>
     (\<exists>c m. lookup (source w) p = Some (File c m) \<and>
            entry_at (replica (copy_file env p p d w)) q = Some (KFile c m))"
proof (rule copy_file_cases[of env p w p d])
  fix c m t
  assume l: "lookup (source w) p = Some (File c m)"
    and wr: "write_file (copy_target (replica w) p p) c m (replica w) = Inr t"
    and c: "copy_file env p p d w
         = response_message (File_copied p) ''info'' (w\<lparr>count := count w + 1, replica := t\<rparr>)"
  from write_file_entry_at[OF wr, of q] write_file_target[OF wr] l show ?thesis
    by (auto simp: c)
next
  fix e
  assume "copy_file env p p d w
         = response_message (Error_copying p d e) ''warning'' (w\<lparr>count := count w + 1\<rparr>)"
  then show ?thesis by simp
qed

lemma act_CopyFile_frame:
  "entry_at (replica (act env w (CopyFile d f))) q = entry_at (replica w) q \<or>
   q = copy_target (replica w) (d @ [f]) (d @ [f]) \<and> entry_at (replica w) q \<noteq> Some KDir \<and>
     (\<exists>c m. lookup (source w) (d @ [f]) = Some (File c m) \<and>
            entry_at (replica (act env w (CopyFile d f))) q = Some (KFile c m))"
  using copy_file_frame[of env "d @ [f]" d w q]
    copy_file_frame[of env "d @ [f]" d "digests_logged env (d @ [f]) w" q]
  by (auto simp: add_file_eq)

lemma copy_target_cases:
  "copy_target t (d @ [f]) (d @ [f]) = d @ [f] \<or> copy_target t (d @ [f]) (d @ [f]) = (d @ [f]) @ [f]"
  by (simp add: copy_target_def basename_def)

lemma isfile_no_child: "isfile t p \<Longrightarrow> \<not> isfile t (p @ [x])"
  using isfile_parent[of t p x] isfile_not_isdir[of t p] by blast

text \<open>Other additive steps leave the replica entry at the path of a source file alone.\<close>

lemma addition_step_frame:
  assumes a: "addition (source w) a" and p: "isfile (source w) p" and ne: "a \<noteq> CopyFile (butlast p) (last p)"
  shows "entry_at (replica (act env w a)) p = entry_at (replica w) p"
proof -
  from a consider d where "a = MkDir d" "isdir (source w) d"
    | d f where "a = CopyFile d f" "isfile (source w) (d @ [f])"
    by (auto simp: addition_def)
  then show ?thesis
  proof cases
    case 1
    have "\<not> prefix p d"
    proof
      assume "prefix p d"
      then obtain r where "d = p @ r" by (auto simp: prefix_def)
      with 1(2) have "isdir (source w) p" by (auto dest: isdir_prefix)
      with p show False by (auto dest: isfile_not_isdir)
    qed
    with act_MkDir_frame[of env w d p] show ?thesis unfolding 1(1) by blast
  next
    case 2
    have "p \<noteq> copy_target (replica w) (d @ [f]) (d @ [f])"
    proof
      assume e: "p = copy_target (replica w) (d @ [f]) (d @ [f])"
      from copy_target_cases[of "replica w" d f] show False
      proof
        assume "copy_target (replica w) (d @ [f]) (d @ [f]) = d @ [f]"
        with e ne 2(1) show False by simp
      next
        assume "copy_target (replica w) (d @ [f]) (d @ [f]) = (d @ [f]) @ [f]"
        with e p isfile_no_child[OF 2(2), of f] show False by simp
      qed
    qed
    with act_CopyFile_frame[of env w d f p] show ?thesis unfolding 2(1) by blast
  qed
qed

subsection \<open>Copy attempts in the log\<close>

lemma copies_response_message [simp]:
  "copies p (response_message m ''info'' w) = copies p w + (if copy_record p m then 1 else 0)"
  "copies p (response_message m ''warning'' w) = copies p w + (if copy_record p m then 1 else 0)"
  "copies p (response_message m ''error'' w) = copies p w + (if copy_record p m then 1 else 0)"
  by (simp_all add: copies_def log_response_message)

lemma copies_update [simp]:
  "copies p (w\<lparr>count := c\<rparr>) = copies p w" "copies p (w\<lparr>replica := t\<rparr>) = copies p w"
  by (simp_all add: copies_def)

lemma copies_calculate_sha256 [simp]:
  "copies p (snd (calculate_sha256 env r q w)) = copies p w"
  by (cases "open_rb env r q w") (simp_all add: calculate_sha256_def)

lemma copies_digests_logged [simp]: "copies p (digests_logged env q w) = copies p w"
  by (simp add: digests_logged_def)

lemma copies_copy_file:
  "copies p (copy_file env q q d w) = copies p w + (if p = q then 1 else 0)"
  by (rule copy_file_cases[of env q w q d]) auto

lemma copies_create_directory [simp]: "copies p (create_directory env d w) = copies p w"
  by (rule create_directory_cases[of env d w]) auto

lemma copies_act_CopyFile:
  "copies p (act env w (CopyFile d f))
   = copies p w + (if p = d @ [f] \<and> needs_copy env w (d @ [f]) then 1 else 0)"
  by (simp add: add_file_eq copies_copy_file needs_copy_def digest_def)

lemma copies_act_MkDir [simp]: "copies p (act env w (MkDir d)) = copies p w"
  by simp

lemma digest_entry:
  "digest env r p w =
     (case entry_at (tree w r) p of
        Some (KFile c m) \<Rightarrow> if read_fails env r p then None else Some (sha256_hex c)
      | _ \<Rightarrow> None)"
  by (cases "lookup (tree w r) p"; cases "the (lookup (tree w r) p)")
     (auto simp: digest_def calculate_sha256_def open_rb_def entry_at_def hexdigest_def
        read_loop_eq hashlib_sha256_def)

lemma needs_copy_cong:
  assumes "source v = source w" and "entry_at (replica v) p = entry_at (replica w) p"
  shows "needs_copy env v p = needs_copy env w p"
  using assms
  by (simp add: needs_copy_def path_exists_entry_at digest_def[symmetric] digest_entry tree_def)

subsection \<open>Each step is taken once\<close>

lemma walk_distinct:
  "wf_tree t \<Longrightarrow> distinct (map fst (os_walk bad td d t))"
  "wf_entries es \<Longrightarrow> distinct (map fst es) \<Longrightarrow> distinct (map fst (walk_entries bad td d es))"
proof (induction bad td d t and bad td d es rule: os_walk_walk_entries.induct)
  case (2 bad td d es)
  from 2(3) have wfes: "wf_entries es" and dis: "distinct (map fst es)" by simp_all
  have "fst a \<noteq> d" if "a \<in> set (walk_entries bad td d es)" for a
    using walk_sound(2)[OF wfes dis that] by auto
  then have "d \<notin> fst ` set (walk_entries bad td d es)" by auto
  with 2 wfes dis show ?case by auto
next
  case (4 bad td d e es)
  obtain x c where e: "e = (x, c)" by (cases e)
  from 4(3,4) have wfc: "wf_tree c" and wfes: "wf_entries es" and dis: "distinct (map fst es)"
    and xn: "x \<notin> fst ` set es"
    by (auto simp: e)
  have "fst a \<noteq> fst b"
    if a: "a \<in> set (os_walk bad td (d @ [x]) c)" and b: "b \<in> set (walk_entries bad td d es)" for a b
  proof -
    from walk_sound(1)[OF wfc a] obtain r where fa: "fst a = (d @ [x]) @ r" by auto
    from walk_sound(2)[OF wfes dis b] obtain y c' r' where y: "map_of es y = Some c'"
      and fb: "fst b = d @ y # r'" by auto
    from y have "y \<in> fst ` set es" by (metis domI dom_map_of_conv_image_fst)
    with xn have "x \<noteq> y" by auto
    then show ?thesis by (auto simp: fa fb)
  qed
  then have "fst ` set (os_walk bad td (d @ [x]) c) \<inter> fst ` set (walk_entries bad td d es) = {}"
    by auto
  with 4(1) 4(2)[OF wfes dis] wfc show ?case
    by (simp add: e)
qed auto

lemma distinct_add_steps:
  assumes "wf_tree t"
  shows "distinct (concat (map add_actions (os_walk bad td [] t)))"
proof (rule distinct_concat)
  let ?items = "os_walk bad td [] t"
  have df: "distinct (map fst ?items)" by (rule walk_distinct(1)[OF assms])
  have inj: "i = j" if "i \<in> set ?items" "j \<in> set ?items" "fst i = fst j" for i j
    using df that by (meson distinct_map inj_onD)
  have hd: "add_actions i = add_actions j \<Longrightarrow> fst i = fst j" for i j :: walk_item
    by (cases i; cases j) (simp add: add_actions_def)
  show "distinct (map add_actions ?items)"
    unfolding distinct_map
  proof
    from df show "distinct ?items" by (simp add: distinct_map)
    show "inj_on add_actions (set ?items)"
    proof (rule inj_onI)
      fix i j assume i: "i \<in> set ?items" and j: "j \<in> set ?items"
        and e: "add_actions i = add_actions j"
      from hd[OF e] inj[OF i j] show "i = j" by simp
    qed
  qed
  show "distinct ys" if "ys \<in> set (map add_actions ?items)" for ys
  proof -
    from that obtain i where i: "i \<in> set ?items" and ys: "ys = add_actions i" by auto
    from walk_sound(1)[OF assms i] obtain d es where l: "lookup t d = Some (Dir es)"
      and it: "i = (d, dirnames es, filenames es)" by auto
    from wf_tree_lookup[OF assms l] have "distinct (filenames es)" by (simp add: distinct_filenames)
    then show ?thesis
      by (auto simp: ys it add_actions_def distinct_map inj_on_def)
  qed
  show "set ys \<inter> set zs = {}"
    if "ys \<in> set (map add_actions ?items)" "zs \<in> set (map add_actions ?items)" "ys \<noteq> zs" for ys zs
  proof -
    from that obtain i j where i: "i \<in> set ?items" "ys = add_actions i"
      and j: "j \<in> set ?items" "zs = add_actions j" by auto
    from that(3) i j have "i \<noteq> j" by auto
    with inj[OF i(1) j(1)] have "fst i \<noteq> fst j" by blast
    then show ?thesis
      by (auto simp: i j in_add_actions)
  qed
qed

subsection \<open>When a source file is copied\<close>

lemma addition_step_copies:
  assumes "addition (source w) a" and "a \<noteq> CopyFile (butlast p) (last p)"
  shows "copies p (act env w a) = copies p w"
proof -
  from assms(1) consider d where "a = MkDir d" | d f where "a = CopyFile d f"
    by (auto simp: addition_def)
  then show ?thesis
  proof cases
    case 1
    then show ?thesis by simp
  next
    case 2
    with assms(2) have "p \<noteq> d @ [f]" by auto
    then show ?thesis unfolding 2 by (simp only: copies_act_CopyFile) simp
  qed
qed

lemma other_steps_frame:
  assumes "\<forall>b\<in>set bs. addition (source w) b \<and> b \<noteq> CopyFile (butlast p) (last p)"
    and "isfile (source w) p"
  shows "source (foldl (act env) w bs) = source w \<and>
         entry_at (replica (foldl (act env) w bs)) p = entry_at (replica w) p \<and>
         copies p (foldl (act env) w bs) = copies p w"
  using assms
proof (induction bs arbitrary: w)
  case Nil
  then show ?case by simp
next
  case (Cons b bs)
  from Cons.prems(1) have b: "addition (source w) b" "b \<noteq> CopyFile (butlast p) (last p)" by simp_all
  have s: "source (act env w b) = source w" by (rule act_source)
  have 1: "\<forall>c\<in>set bs. addition (source (act env w b)) c \<and> c \<noteq> CopyFile (butlast p) (last p)"
    using Cons.prems(1) by (simp add: s)
  have 2: "isfile (source (act env w b)) p" using Cons.prems(2) by (simp add: s)
  from Cons.IH[OF 1 2] addition_step_frame[OF b(1) Cons.prems(2) b(2), of env]
    addition_step_copies[OF b, of env] s
  show ?case by simp
qed

lemma add_pass_copies:
  assumes wf: "wf_tree (source w)"
    and nobad: "\<forall>p. \<not> scandir_fails env Source p"
    and ret: "add_files_and_directories env w = Returned w'"
    and isf: "isfile (source w) p" and ne: "p \<noteq> []"
  shows "copies p w' = copies p w + (if needs_copy env w p then 1 else 0)"
proof -
  let ?as = "concat (map add_actions (os_walk (scandir_fails env Source) True [] (source w)))"
  let ?a = "CopyFile (butlast p) (last p)"
  have w': "w' = foldl (act env) w ?as" by (rule add_pass_fold[OF ret])
  from ne have p: "butlast p @ [last p] = p" by simp
  have mem: "b \<in> set ?as \<longleftrightarrow> addition (source w) b" for b
    unfolding addition_def by (rule add_steps_iff[OF nobad wf])
  have "?a \<in> set ?as" using mem[of ?a] isf by (auto simp: addition_def p)
  from split_list[OF this] obtain xs ys where as: "?as = xs @ ?a # ys" by blast
  have "distinct ?as" by (rule distinct_add_steps[OF wf])
  then have nx: "?a \<notin> set xs" and ny: "?a \<notin> set ys" by (simp_all add: as)
  have ax: "\<forall>b\<in>set xs. addition (source w) b \<and> b \<noteq> ?a"
    using mem nx as by (metis Un_iff set_append)
  let ?v = "foldl (act env) w xs"
  from other_steps_frame[OF ax isf, of env]
  have v: "source ?v = source w" "entry_at (replica ?v) p = entry_at (replica w) p"
    "copies p ?v = copies p w" by simp_all
  let ?v2 = "act env ?v ?a"
  have c2: "copies p ?v2 = copies p w + (if needs_copy env w p then 1 else 0)"
    using copies_act_CopyFile[of p env ?v "butlast p" "last p"] needs_copy_cong[OF v(1,2), of env]
    by (simp add: p v(3))
  have s2: "source ?v2 = source w" by (simp only: act_source v(1))
  have ay: "\<forall>b\<in>set ys. addition (source ?v2) b \<and> b \<noteq> ?a"
    unfolding s2 using mem ny as
    by (metis Un_iff list.set_intros(2) set_append)
  have f2: "isfile (source ?v2) p" using isf by (simp only: s2)
  from other_steps_frame[OF ay f2, of env]
  have "copies p (foldl (act env) ?v2 ys) = copies p ?v2" by simp
  with c2 show ?thesis by (simp add: w' as)
qed

lemma add_w_meta: "add_files_and_directories no_faults w_meta = Returned w_meta'"
  by (simp add: run_defs calculate_sha256_def open_rb_def tree_def w_meta_def w_meta'_def)

lemma add_w_locked: "add_files_and_directories env_locked w_locked = Returned w_locked'"
  by (simp add: run_defs calculate_sha256_def open_rb_def tree_def env_locked_def w_locked_def
      w_locked'_def)

lemma add_w_sub_unlistable: "add_files_and_directories env_unlistable w_sub = Returned w_sub"
  by (simp add: run_defs env_unlistable_def w_sub_def)


lemma open_rb_log [simp]:
  "open_rb env r p (response_message msg ty w) = open_rb env r p w"
  by (simp add: open_rb_def tree_def response_message_def logging_def print_def split: root.splits)

subsection \<open>The digest calculator\<close>

text \<open>
  Claim C8. For every path, when the file cannot be opened or read, \<open>calculate_sha256\<close>
  logs the failure at level error and returns no fingerprint (\<open>None\<close>), as a value and
  not as an exception; when it can, the result is the SHA-256 of the whole content
  (the chunks of 4096 bytes put together again), a string of 64 hexadecimal digits. The
  file can be read exactly when the path holds a regular file that the environment lets
  be read. Neither tree nor the counter changes.
\<close>

theorem calculate_sha256_result:
  "(open_rb env r p w = Inl e \<longrightarrow>
      calculate_sha256 env r p w =
        (None, w\<lparr>log := log w @ [(ERROR, Error_calculating_SHA256 r p e)],
                 stdout := stdout w @ [Error_calculating_SHA256 r p e]\<rparr>)) \<and>
   (open_rb env r p w = Inr c \<longrightarrow>
      calculate_sha256 env r p w = (Some (sha256_hex c), w) \<and>
      length (sha256_hex c) = 64 \<and> set (sha256_hex c) \<subseteq> set ''0123456789abcdef'') \<and>
   (open_rb env r p w = Inr c \<longleftrightarrow>
      (\<exists>m. lookup (tree w r) p = Some (File c m)) \<and> \<not> read_fails env r p) \<and>
   source (snd (calculate_sha256 env r p w)) = source w \<and>
   replica (snd (calculate_sha256 env r p w)) = replica w \<and>
   count (snd (calculate_sha256 env r p w)) = count w"
proof -
  have a: "open_rb env r p w = Inl e \<longrightarrow>
      calculate_sha256 env r p w =
        (None, w\<lparr>log := log w @ [(ERROR, Error_calculating_SHA256 r p e)],
                 stdout := stdout w @ [Error_calculating_SHA256 r p e]\<rparr>)"
    by (simp add: calculate_sha256_def response_message_def logging_def print_def)
  have b: "open_rb env r p w = Inr c \<longrightarrow>
      calculate_sha256 env r p w = (Some (sha256_hex c), w)"
    by (simp add: calculate_sha256_def hexdigest_def read_loop_eq hashlib_sha256_def)
  have c: "open_rb env r p w = Inr c \<longleftrightarrow>
      (\<exists>m. lookup (tree w r) p = Some (File c m)) \<and> \<not> read_fails env r p"
    by (auto simp: open_rb_def split: option.splits node.splits)
  have d: "source (snd (calculate_sha256 env r p w)) = source w \<and>
   replica (snd (calculate_sha256 env r p w)) = replica w \<and>
   count (snd (calculate_sha256 env r p w)) = count w"
    by (cases "open_rb env r p w")
       (simp_all add: calculate_sha256_def response_message_def logging_def print_def)
  from a b c d length_sha256_hex set_sha256_hex show ?thesis by blast
qed

theorem calculate_sha256_result_witness:
  "open_rb no_faults Source [''d''] w_ex = Inl IsADirectoryError \<and>
   calculate_sha256 no_faults Source [''d''] w_ex =
     (None, w_ex\<lparr>log := log w_ex @ [(ERROR, Error_calculating_SHA256 Source [''d''] IsADirectoryError)],
                 stdout := stdout w_ex @ [Error_calculating_SHA256 Source [''d''] IsADirectoryError]\<rparr>) \<and>
   open_rb no_faults Source [''a''] w_ex = Inr [1, 2, 3] \<and>
   calculate_sha256 no_faults Source [''a''] w_ex = (Some (sha256_hex [1, 2, 3]), w_ex) \<and>
   length (sha256_hex [1, 2, 3]) = 64"
proof -
  have h1: "open_rb no_faults Source [''d''] w_ex = Inl IsADirectoryError"
    by (simp add: open_rb_def tree_def w_ex_def no_faults_def)
  have h2: "open_rb no_faults Source [''a''] w_ex = Inr [1, 2, 3]"
    by (simp add: open_rb_def tree_def w_ex_def no_faults_def)
  from calculate_sha256_result[of no_faults Source "[''d'']" w_ex IsADirectoryError "[]"]
    calculate_sha256_result[of no_faults Source "[''a'']" w_ex IsADirectoryError "[1, 2, 3]"]
    h1 h2
  show ?thesis by blast
qed

text \<open>
  Claim C10. When the replica file exists and the digest fails for the source file and
  for the replica file, both results are \<open>None\<close>, the comparison finds them equal, and
  the additive pass skips the copy: the replica and the counter stay as they are, and the
  log gains the two digest errors and nothing about a copy.
\<close>

theorem double_digest_failure_skips_copy:
  assumes "path_exists (replica w) (d @ [f])"
    and "open_rb env Source (d @ [f]) w = Inl e1"
    and "open_rb env Replica (d @ [f]) w = Inl e2"
  shows "fst (calculate_sha256 env Source (d @ [f]) w) = None \<and>
         fst (calculate_sha256 env Replica (d @ [f]) w) = None \<and>
         add_file env d d w f =
           w\<lparr>log := log w @ [(ERROR, Error_calculating_SHA256 Source (d @ [f]) e1),
                              (ERROR, Error_calculating_SHA256 Replica (d @ [f]) e2)],
             stdout := stdout w @ [Error_calculating_SHA256 Source (d @ [f]) e1,
                                   Error_calculating_SHA256 Replica (d @ [f]) e2]\<rparr>"
proof -
  let ?w1 = "response_message (Error_calculating_SHA256 Source (d @ [f]) e1) ''error'' w"
  have s: "calculate_sha256 env Source (d @ [f]) w = (None, ?w1)"
    using assms(2) by (simp add: calculate_sha256_def)
  have r: "calculate_sha256 env Replica (d @ [f]) w
           = (None, response_message (Error_calculating_SHA256 Replica (d @ [f]) e2) ''error'' w)"
    using assms(3) by (simp add: calculate_sha256_def)
  have r1: "calculate_sha256 env Replica (d @ [f]) ?w1
           = (None, response_message (Error_calculating_SHA256 Replica (d @ [f]) e2) ''error'' ?w1)"
    using assms(3) by (simp add: calculate_sha256_def)
  have ex: "path_exists (replica w) (d @ [f])" by (rule assms(1))
  have "add_file env d d w f
        = response_message (Error_calculating_SHA256 Replica (d @ [f]) e2) ''error'' ?w1"
    using ex by (simp add: add_file_def Let_def s r1)
  then show ?thesis
    using s r by (simp add: response_message_def logging_def print_def)
qed

theorem double_digest_failure_skips_copy_witness:
  "path_exists (replica w_both) ([] @ [''a'']) \<and>
   open_rb unreadable Source ([] @ [''a'']) w_both = Inl PermissionError \<and>
   open_rb unreadable Replica ([] @ [''a'']) w_both = Inl PermissionError \<and>
   replica (add_file unreadable [] [] w_both ''a'') = replica w_both \<and>
   count (add_file unreadable [] [] w_both ''a'') = 0"
proof -
  have h1: "path_exists (replica w_both) ([] @ [''a''])"
    by (simp add: path_exists_def w_both_def)
  have h2: "open_rb unreadable Source ([] @ [''a'']) w_both = Inl PermissionError"
    by (simp add: open_rb_def tree_def w_both_def unreadable_def no_faults_def)
  have h3: "open_rb unreadable Replica ([] @ [''a'']) w_both = Inl PermissionError"
    by (simp add: open_rb_def tree_def w_both_def unreadable_def no_faults_def)
  have c: "count w_both = 0" by (simp add: w_both_def)
  from double_digest_failure_skips_copy[OF h1 h2 h3] h1 h2 h3 c show ?thesis by simp
qed

subsection \<open>Exit status\<close>

text \<open>
  Claim C9. Declining the confirmation with \<open>n\<close> ends the process with status 0. A
  keyboard interrupt during the loop (here: during the sleep after a cycle) is logged at
  level info as an interruption by the user and ends the process with status 1, the
  status that an unexpected exception (the \<open>ValueError\<close> of a negative sleep) gives too.
\<close>

theorem exit_status_convention:
  "(confirm answers = Inr ''n'' \<longrightarrow> main answers ps interval cycles w = Exited 0 w) \<and>
   (sync_folders env ((response_message Starting_synchronization ''info'' w)\<lparr>count := 0\<rparr>) = Returned w3
      \<and> 0 \<le> interval \<longrightarrow>
      (\<exists>w'. main_loop interval ((env, CtrlC) # cycles) w = Exited 1 w' \<and>
            last (log w') = (INFO, Program_interrupted))) \<and>
   (sync_folders env ((response_message Starting_synchronization ''info'' w)\<lparr>count := 0\<rparr>) = Returned w3
      \<and> interval < 0 \<longrightarrow>
      (\<exists>w'. main_loop interval ((env, ev) # cycles) w = Exited 1 w' \<and>
            last (log w') = (ERROR, Unexpected_error ValueError)))"
proof -
  have a: "confirm answers = Inr ''n'' \<longrightarrow> main answers ps interval cycles w = Exited 0 w"
    by (simp add: main_def)
  have b: "sync_folders env ((response_message Starting_synchronization ''info'' w)\<lparr>count := 0\<rparr>) = Returned w3
      \<and> 0 \<le> interval \<longrightarrow>
      (\<exists>w'. main_loop interval ((env, CtrlC) # cycles) w = Exited 1 w' \<and>
            last (log w') = (INFO, Program_interrupted))"
    by (simp add: Let_def time_sleep_def response_message_def logging_def print_def)
  have c: "sync_folders env ((response_message Starting_synchronization ''info'' w)\<lparr>count := 0\<rparr>) = Returned w3
      \<and> interval < 0 \<longrightarrow>
      (\<exists>w'. main_loop interval ((env, ev) # cycles) w = Exited 1 w' \<and>
            last (log w') = (ERROR, Unexpected_error ValueError))"
    by (simp add: Let_def time_sleep_def response_message_def logging_def print_def)
  from a b c show ?thesis by blast
qed

lemma sync_folders_w_empty:
  "sync_folders no_faults ((response_message Starting_synchronization ''info'' w_empty)\<lparr>count := 0\<rparr>)
   = Returned ((response_message Starting_synchronization ''info'' w_empty)\<lparr>count := 0\<rparr>)"
  by (simp add: sync_folders_def add_files_and_directories_def remove_files_and_directories_def
      add_body_def remove_body_def no_faults_def w_empty_def response_message_def logging_def
      print_def dirnames_def filenames_def path_exists_def)

theorem exit_status_convention_witness:
  "confirm [''x'', ''n''] = Inr ''n'' \<and>
   main [''x'', ''n''] ps_ok 5 [] w_empty = Exited 0 w_empty \<and>
   (\<exists>w'. main_loop 5 [(no_faults, CtrlC)] w_empty = Exited 1 w' \<and>
         last (log w') = (INFO, Program_interrupted)) \<and>
   (\<exists>w'. main_loop (- 1) [(no_faults, Tick)] w_empty = Exited 1 w' \<and>
         last (log w') = (ERROR, Unexpected_error ValueError))"
proof -
  have h: "confirm [''x'', ''n''] = Inr ''n''" by simp
  have i5: "(0::int) \<le> 5" and i1: "(- 1 :: int) < 0" by simp_all
  from exit_status_convention[of "[''x'', ''n'']" ps_ok 5 "[]" w_empty no_faults
      "(response_message Starting_synchronization ''info'' w_empty)\<lparr>count := 0\<rparr>" CtrlC]
    exit_status_convention[of "[''x'', ''n'']" ps_ok "- 1" "[]" w_empty no_faults
      "(response_message Starting_synchronization ''info'' w_empty)\<lparr>count := 0\<rparr>" Tick]
    h sync_folders_w_empty i5 i1
  show ?thesis by blast
qed

subsection \<open>The subtractive pass\<close>




subsection \<open>Convergence and idempotence\<close>

text \<open>
  Claim C1, as stated, fails: for a source that holds the empty directory \<open>d\<close> and a
  replica that holds a regular file \<open>d\<close>, a full cycle changes nothing and logs no
  failure, and the replica still has a file where the source has a directory.
\<close>

theorem convergence_counterexample:
  "sync_folders no_faults w_conflict = Returned w_conflict \<and> log w_conflict = [] \<and>
   file_paths [] (replica w_conflict) = [[''d'']] \<and> file_paths [] (source w_conflict) = [] \<and>
   dir_paths [] (replica w_conflict) = [[]] \<and> dir_paths [] (source w_conflict) = [[], [''d'']]"
  using sync_w_conflict by (simp add: w_conflict_def)

text \<open>
  Claim C1, amended. For well-formed trees whose directories can all be listed, a source
  root that is a directory, and a replica in which no path of a source directory is
  occupied by a regular file: after one cycle that logged no failure, the files of the
  replica are the files of the source, its directories are the directories of the source,
  and the fingerprint at every path is the same in both trees. The source is unchanged.
\<close>

theorem convergence_after_one_cycle:
  assumes "wf_tree (source w)" and "wf_tree (replica w)" and "is_Dir (source w)"
    and "\<forall>r p. \<not> scandir_fails env r p"
    and "sync_folders env w = Returned w'"
    and "failed w' = failed w"
    and "list_all (\<lambda>d. \<not> isfile (replica w) d) (dir_paths [] (source w))"
  shows "set (file_paths [] (replica w')) = set (file_paths [] (source w)) \<and>
         set (dir_paths [] (replica w')) = set (dir_paths [] (source w)) \<and>
         (\<forall>p. fingerprint_at (replica w') p = fingerprint_at (source w) p) \<and>
         source w' = source w"
proof -
  note c = cycle_nf[OF assms(1,2,4,5,6)]
  from assms(7) have nofile: "\<not> isfile (replica w) d" if "isdir (source w) d" for d
    using that by (simp add: list_all_iff set_dir_paths[OF assms(1)])
  have dirs: "isdir (replica w') d" if "isdir (source w) d" for d
    using c(4)[OF that nofile[OF that]] .
  from assms(3) have root: "isdir (source w) []" by (cases "source w") (simp_all add: isdir_def)
  have files: "matches c (replica w') p" if "lookup (source w) p = Some (File c m)" for p c m
  proof -
    from that root have "p \<noteq> []" by (auto simp: isdir_iff)
    with c(3) that show ?thesis unfolding in_sync_def by blast
  qed
  have only_src: "path_exists (source w) q" if "path_exists (replica w') q" for q
    using c(3) that unfolding in_sync_def by blast
  have k: "(isfile (replica w') q \<longleftrightarrow> isfile (source w) q) \<and>
           (isdir (replica w') q \<longleftrightarrow> isdir (source w) q) \<and>
           fingerprint_at (replica w') q = fingerprint_at (source w) q" for q
  proof (cases "lookup (source w) q")
    case None
    then have "\<not> path_exists (source w) q" by (simp add: path_exists_def)
    with only_src[of q] have "\<not> path_exists (replica w') q" by blast
    then have "entry_at (replica w') q = None" by (simp add: path_exists_entry_at)
    moreover from None have "entry_at (source w) q = None" by (simp add: entry_at_def)
    ultimately show ?thesis by (simp add: isfile_def isdir_def fingerprint_at_entry)
  next
    case (Some n)
    show ?thesis
    proof (cases n)
      case (File c m)
      with Some have l: "lookup (source w) q = Some (File c m)" by simp
      from files[OF l] obtain c' m' where "entry_at (replica w') q = Some (KFile c' m')"
        and "sha256_hex c' = sha256_hex c" by (auto simp: matches_def)
      moreover from l have "entry_at (source w) q = Some (KFile c m)" by (simp add: entry_at_def)
      ultimately show ?thesis by (simp add: isfile_def isdir_def fingerprint_at_entry)
    next
      case (Dir es)
      with Some have "isdir (source w) q" by (simp add: isdir_iff)
      with dirs[of q] show ?thesis by (simp add: isfile_def isdir_def fingerprint_at_entry)
    qed
  qed
  have "set (file_paths [] (replica w')) = set (file_paths [] (source w))"
    using k by (simp add: set_file_paths[OF c(2)] set_file_paths[OF assms(1)])
  moreover have "set (dir_paths [] (replica w')) = set (dir_paths [] (source w))"
    using k by (simp add: set_dir_paths[OF c(2)] set_dir_paths[OF assms(1)])
  ultimately show ?thesis using k c(1) by simp
qed

theorem convergence_after_one_cycle_witness:
  "wf_tree (source (w_cyc\<lparr>count := 0\<rparr>)) \<and> wf_tree (replica (w_cyc\<lparr>count := 0\<rparr>)) \<and>
   is_Dir (source (w_cyc\<lparr>count := 0\<rparr>)) \<and> (\<forall>r p. \<not> scandir_fails no_faults r p) \<and>
   sync_folders no_faults (w_cyc\<lparr>count := 0\<rparr>) = Returned w_cyc1 \<and>
   failed w_cyc1 = failed (w_cyc\<lparr>count := 0\<rparr>) \<and>
   list_all (\<lambda>d. \<not> isfile (replica (w_cyc\<lparr>count := 0\<rparr>)) d) (dir_paths [] (source (w_cyc\<lparr>count := 0\<rparr>))) \<and>
   set (file_paths [] (replica w_cyc1)) = set (file_paths [] (source (w_cyc\<lparr>count := 0\<rparr>))) \<and>
   set (dir_paths [] (replica w_cyc1)) = set (dir_paths [] (source (w_cyc\<lparr>count := 0\<rparr>))) \<and>
   (\<forall>p. fingerprint_at (replica w_cyc1) p = fingerprint_at (source (w_cyc\<lparr>count := 0\<rparr>)) p)"
proof -
  have h1: "wf_tree (source (w_cyc\<lparr>count := 0\<rparr>))" by (simp add: w_cyc_def)
  have h2: "wf_tree (replica (w_cyc\<lparr>count := 0\<rparr>))" by (simp add: w_cyc_def)
  have h3: "is_Dir (source (w_cyc\<lparr>count := 0\<rparr>))" by (simp add: w_cyc_def)
  have h4: "\<forall>r p. \<not> scandir_fails no_faults r p" by (simp add: no_faults_def)
  have h6: "failed w_cyc1 = failed (w_cyc\<lparr>count := 0\<rparr>)"
    by (simp add: failed_def w_cyc_def w_cyc1_def)
  have h7: "list_all (\<lambda>d. \<not> isfile (replica (w_cyc\<lparr>count := 0\<rparr>)) d)
              (dir_paths [] (source (w_cyc\<lparr>count := 0\<rparr>)))"
    by (simp add: w_cyc_def isfile_def entry_at_def)
  from convergence_after_one_cycle[OF h1 h2 h3 h4 sync_w_cyc h6 h7] h1 h2 h3 h4 sync_w_cyc h6 h7
  show ?thesis by blast
qed

text \<open>
  Claim C2. Two cycles in succession, the second starting from what the first left
  (the counter reset as each cycle does), neither logging a failure, on well-formed
  trees whose directories can all be listed: the second cycle leaves the replica as the
  first left it, and its change counter is zero.
\<close>

theorem second_cycle_changes_nothing:
  assumes "wf_tree (source w)" and "wf_tree (replica w)"
    and "\<forall>r p. \<not> scandir_fails env1 r p"
    and "sync_folders env1 (w\<lparr>count := 0\<rparr>) = Returned w1"
    and "failed w1 = failed w"
    and "sync_folders env2 (w1\<lparr>count := 0\<rparr>) = Returned w2"
    and "failed w2 = failed w1"
  shows "replica w2 = replica w1 \<and> source w2 = source w \<and> count w2 = 0"
proof -
  have a: "wf_tree (source (w\<lparr>count := 0\<rparr>))" "wf_tree (replica (w\<lparr>count := 0\<rparr>))"
    using assms(1,2) by simp_all
  have f: "failed w1 = failed (w\<lparr>count := 0\<rparr>)" using assms(5) by simp
  note c = cycle_nf[OF a assms(3,4) f]
  have b: "wf_tree (source (w1\<lparr>count := 0\<rparr>))" "wf_tree (replica (w1\<lparr>count := 0\<rparr>))"
    "in_sync (source (w1\<lparr>count := 0\<rparr>)) (replica (w1\<lparr>count := 0\<rparr>))"
    using c(1,2,3) assms(1) by simp_all
  have g: "failed w2 = failed (w1\<lparr>count := 0\<rparr>)" using assms(7) by simp
  from cycle_in_sync_noop[OF b assms(6) g] have "w2 = w1\<lparr>count := 0\<rparr>" .
  with c(1) show ?thesis by simp
qed

theorem second_cycle_changes_nothing_witness:
  "wf_tree (source w_cyc) \<and> wf_tree (replica w_cyc) \<and> (\<forall>r p. \<not> scandir_fails no_faults r p) \<and>
   sync_folders no_faults (w_cyc\<lparr>count := 0\<rparr>) = Returned w_cyc1 \<and> failed w_cyc1 = failed w_cyc \<and>
   sync_folders no_faults (w_cyc1\<lparr>count := 0\<rparr>) = Returned (w_cyc1\<lparr>count := 0\<rparr>) \<and>
   failed (w_cyc1\<lparr>count := 0\<rparr>) = failed w_cyc1 \<and>
   replica (w_cyc1\<lparr>count := 0\<rparr>) = replica w_cyc1 \<and> count (w_cyc1\<lparr>count := 0\<rparr>) = 0"
proof -
  have h1: "wf_tree (source w_cyc)" by (simp add: w_cyc_def)
  have h2: "wf_tree (replica w_cyc)" by (simp add: w_cyc_def)
  have h3: "\<forall>r p. \<not> scandir_fails no_faults r p" by (simp add: no_faults_def)
  have h5: "failed w_cyc1 = failed w_cyc" by (simp add: failed_def w_cyc_def w_cyc1_def)
  have h7: "failed (w_cyc1\<lparr>count := 0\<rparr>) = failed w_cyc1" by simp
  from second_cycle_changes_nothing[OF h1 h2 h3 sync_w_cyc h5 sync_w_cyc1 h7]
    h1 h2 h3 sync_w_cyc h5 sync_w_cyc1 h7
  show ?thesis by blast
qed

subsection \<open>The change counter\<close>

text \<open>
  Claim C3, as stated, fails: each \<open>try\<close> block increments the counter before it runs
  its operation. With a source holding one file, an empty replica and an environment that
  refuses the copy, the cycle starts at zero and ends with the counter at 1, although no
  operation succeeded and the replica is as it was.
\<close>

theorem counter_counts_failed_copy_counterexample:
  "count w_one = 0 \<and> sync_folders env_refuse w_one = Returned w_one' \<and>
   count w_one' = 1 \<and> successes w_one' = 0 \<and> replica w_one' = replica w_one \<and>
   log w_one' = [(WARNING, Error_copying [''a''] [] PermissionError)]"
  using sync_w_one by (simp add: w_one_def w_one'_def successes_def)

text \<open>
  Claim C3, amended. A cycle starts with the counter at zero, and the counter is
  incremented exactly once for each create, copy or remove operation that is attempted,
  whether it succeeds or raises: at the end of \<open>sync_folders\<close> (returned or exited)
  the counter is the number of records that the cycle logged for such operations,
  successes and failures together.
\<close>

theorem counter_counts_attempted_operations:
  "count (final (sync_folders env (w\<lparr>count := 0\<rparr>)))
   = int (attempts (final (sync_folders env (w\<lparr>count := 0\<rparr>)))) - int (attempts w)"
  using sync_count_attempts[of env "w\<lparr>count := 0\<rparr>"] by simp

subsection \<open>Errors of the traversal\<close>

text \<open>
  Claim C6, as stated, fails: an error of \<open>os.scandir\<close> while the source tree is
  enumerated never reaches the handler, because \<open>os.walk\<close> is called without
  \<open>onerror\<close> and swallows it. With a source directory \<open>s\<close> that cannot be
  listed, the cycle returns normally, logs nothing and leaves the replica without \<open>s\<close>.
\<close>

theorem unlistable_directory_is_skipped_counterexample:
  "scandir_fails env_unlistable Source [''s''] \<and> isdir (source w_sub) [''s''] \<and>
   add_files_and_directories env_unlistable w_sub = Returned w_sub \<and>
   sync_folders env_unlistable w_sub = Returned w_sub \<and>
   log w_sub = [] \<and> \<not> path_exists (replica w_sub) [''s'']"
proof -
  have "add_files_and_directories env_unlistable w_sub = Returned w_sub"
    by (simp add: run_defs env_unlistable_def w_sub_def)
  with sync_w_sub_unlistable show ?thesis
    by (simp add: env_unlistable_def no_faults_def w_sub_def isdir_def entry_at_def path_exists_def)
qed

text \<open>
  Claim C6, amended. An exception that leaves the \<open>os.walk\<close> generator while the
  source tree is enumerated (additive pass) or the replica tree is enumerated (subtractive
  pass) is logged at level error and ends the whole process with status 1: the pass exits,
  \<open>sync_folders\<close> exits, and the driver loop exits with that status instead of going on
  to the next cycle. A directory that merely cannot be listed raises nothing: without an
  exception of the generator, both passes return.
\<close>

theorem traversal_exception_is_fatal:
  "((\<exists>i\<in>set (os_walk (scandir_fails env Source) True [] (source w)). walk_raises env Source (fst i))
      \<longrightarrow> (\<exists>w'. add_files_and_directories env w = SystemExit 1 w' \<and>
               last (log w') = (ERROR, Unknown_error_adding RecursionError) \<and>
               sync_folders env w = SystemExit 1 w')) \<and>
   ((\<exists>i\<in>set (os_walk (scandir_fails env Replica) False [] (replica w)). walk_raises env Replica (fst i))
      \<longrightarrow> (\<exists>w'. remove_files_and_directories env w = SystemExit 1 w' \<and>
               last (log w') = (ERROR, Unknown_error_removing RecursionError))) \<and>
   (add_files_and_directories env w = Returned w1 \<and>
    remove_files_and_directories env w1 = SystemExit n w2
      \<longrightarrow> sync_folders env w = SystemExit n w2) \<and>
   (sync_folders (fst cycle) ((response_message Starting_synchronization ''info'' w)\<lparr>count := 0\<rparr>)
      = SystemExit n w2
      \<longrightarrow> main_loop interval (cycle # cycles) w = Exited n w2) \<and>
   ((\<forall>r p. \<not> walk_raises env r p) \<longrightarrow> (\<exists>w'. sync_folders env w = Returned w'))"
proof -
  have a: "(\<exists>i\<in>set (os_walk (scandir_fails env Source) True [] (source w)). walk_raises env Source (fst i))
      \<longrightarrow> (\<exists>w'. add_files_and_directories env w = SystemExit 1 w' \<and>
               last (log w') = (ERROR, Unknown_error_adding RecursionError) \<and>
               sync_folders env w = SystemExit 1 w')"
  proof
    assume "\<exists>i\<in>set (os_walk (scandir_fails env Source) True [] (source w)). walk_raises env Source (fst i)"
    from for_walk_raises[OF this, of "add_body env" w] obtain w0 where
      "for_walk (walk_raises env Source) (add_body env)
         (os_walk (scandir_fails env Source) True [] (source w)) w = Inl (RecursionError, w0)" ..
    then show "\<exists>w'. add_files_and_directories env w = SystemExit 1 w' \<and>
               last (log w') = (ERROR, Unknown_error_adding RecursionError) \<and>
               sync_folders env w = SystemExit 1 w'"
      by (simp add: add_files_and_directories_def sync_folders_def log_response_message)
  qed
  have b: "(\<exists>i\<in>set (os_walk (scandir_fails env Replica) False [] (replica w)). walk_raises env Replica (fst i))
      \<longrightarrow> (\<exists>w'. remove_files_and_directories env w = SystemExit 1 w' \<and>
               last (log w') = (ERROR, Unknown_error_removing RecursionError))"
  proof
    assume "\<exists>i\<in>set (os_walk (scandir_fails env Replica) False [] (replica w)). walk_raises env Replica (fst i)"
    from for_walk_raises[OF this, of "remove_body env" w] obtain w0 where
      "for_walk (walk_raises env Replica) (remove_body env)
         (os_walk (scandir_fails env Replica) False [] (replica w)) w = Inl (RecursionError, w0)" ..
    then show "\<exists>w'. remove_files_and_directories env w = SystemExit 1 w' \<and>
               last (log w') = (ERROR, Unknown_error_removing RecursionError)"
      by (simp add: remove_files_and_directories_def log_response_message)
  qed
  have c: "add_files_and_directories env w = Returned w1 \<and>
    remove_files_and_directories env w1 = SystemExit n w2
      \<longrightarrow> sync_folders env w = SystemExit n w2"
    by (simp add: sync_folders_def)
  have d: "sync_folders (fst cycle) ((response_message Starting_synchronization ''info'' w)\<lparr>count := 0\<rparr>)
      = SystemExit n w2
      \<longrightarrow> main_loop interval (cycle # cycles) w = Exited n w2"
    by (simp add: Let_def)
  have e: "(\<forall>r p. \<not> walk_raises env r p) \<longrightarrow> (\<exists>w'. sync_folders env w = Returned w')"
    by (simp add: sync_folders_def add_files_and_directories_def remove_files_and_directories_def
        for_walk_no_raise)
  from a b c d e show ?thesis by blast
qed

theorem traversal_exception_is_fatal_witness:
  "(\<exists>i\<in>set (os_walk (scandir_fails env_raising Source) True [] (source w_sub)).
       walk_raises env_raising Source (fst i)) \<and>
   add_files_and_directories env_raising w_sub = SystemExit 1 w_sub' \<and>
   last (log w_sub') = (ERROR, Unknown_error_adding RecursionError) \<and>
   sync_folders env_raising w_sub = SystemExit 1 w_sub'"
proof -
  have h: "\<exists>i\<in>set (os_walk (scandir_fails env_raising Source) True [] (source w_sub)).
       walk_raises env_raising Source (fst i)"
    by (simp add: env_raising_def no_faults_def w_sub_def dirnames_def filenames_def)
  from traversal_exception_is_fatal[of env_raising w_sub] h sync_w_sub_raising
  show ?thesis by (auto simp: w_sub'_def)
qed

subsection \<open>The copy condition\<close>

text \<open>
  Claim C4, as stated, fails in two ways. A replica file with the content of its source
  counterpart that cannot be opened for reading (it is write-only, say) has no digest, the
  comparison finds \<open>None\<close> against a digest, and the file is copied again. And a source
  file below a directory that cannot be listed is never reached by the walk: it is not
  copied although the replica has nothing at its path.
\<close>

theorem copy_condition_counterexample:
  "lookup (source w_locked) [''a.txt''] = Some (File [104, 105] (1, 420)) \<and>
   lookup (replica w_locked) [''a.txt''] = Some (File [104, 105] (9, 128)) \<and>
   add_files_and_directories env_locked w_locked = Returned w_locked' \<and>
   copies [''a.txt''] w_locked = 0 \<and> copies [''a.txt''] w_locked' = 1 \<and>
   isfile (source w_sub) [''s'', ''b''] \<and> \<not> path_exists (replica w_sub) [''s'', ''b''] \<and>
   add_files_and_directories env_unlistable w_sub = Returned w_sub \<and>
   copies [''s'', ''b''] w_sub = 0"
  using add_w_locked add_w_sub_unlistable
  by (simp add: w_locked_def w_locked'_def w_sub_def copies_def isfile_def entry_at_def
      path_exists_def)

text \<open>
  Claim C4, amended. When every directory of the source can be listed, then for every file
  of the source tree the additive pass attempts exactly one copy to the corresponding
  replica path when the replica path does not exist or the two results of
  \<open>calculate_sha256\<close> differ, and none otherwise (the state tested is the one the pass
  started from: no other step touches that path). So a replica file with the content of its
  source counterpart, both of them readable, is not copied again, whatever the modification
  times and permission bits of the two files.
\<close>

theorem copy_condition:
  assumes "wf_tree (source w)" and "is_Dir (source w)"
    and "\<forall>p. \<not> scandir_fails env Source p"
    and "add_files_and_directories env w = Returned w'"
    and "isfile (source w) p"
  shows "copies p w' = copies p w +
           (if \<not> path_exists (replica w) p \<or>
               fst (calculate_sha256 env Source p w) \<noteq> fst (calculate_sha256 env Replica p w)
            then 1 else 0) \<and>
         ((\<exists>c m m'. lookup (source w) p = Some (File c m) \<and> lookup (replica w) p = Some (File c m')) \<and>
          \<not> read_fails env Source p \<and> \<not> read_fails env Replica p
            \<longrightarrow> copies p w' = copies p w)"
proof -
  from assms(2) have "isdir (source w) []" by (cases "source w") (simp_all add: isdir_def)
  with assms(5) have ne: "p \<noteq> []" by (auto dest: isfile_not_isdir)
  have c: "copies p w' = copies p w + (if needs_copy env w p then 1 else 0)"
    by (rule add_pass_copies[OF assms(1,3,4,5) ne])
  have "\<not> needs_copy env w p"
    if "\<exists>c m m'. lookup (source w) p = Some (File c m) \<and> lookup (replica w) p = Some (File c m')"
      and "\<not> read_fails env Source p" and "\<not> read_fails env Replica p"
  proof -
    from that(1) obtain c m m' where s: "lookup (source w) p = Some (File c m)"
      and r: "lookup (replica w) p = Some (File c m')" by blast
    from s that(2) have "digest env Source p w = Some (sha256_hex c)"
      by (simp add: digest_Some_iff tree_def)
    moreover from r that(3) have "digest env Replica p w = Some (sha256_hex c)"
      by (simp add: digest_Some_iff tree_def)
    moreover from r have "path_exists (replica w) p" by (simp add: path_exists_def)
    ultimately show ?thesis by (simp add: needs_copy_def digest_def)
  qed
  with c show ?thesis by (auto simp: needs_copy_def)
qed

theorem copy_condition_witness:
  "wf_tree (source w_meta) \<and> is_Dir (source w_meta) \<and> (\<forall>p. \<not> scandir_fails no_faults Source p) \<and>
   add_files_and_directories no_faults w_meta = Returned w_meta' \<and>
   isfile (source w_meta) [''a.txt''] \<and> isfile (source w_meta) [''new.txt''] \<and>
   lookup (source w_meta) [''a.txt''] = Some (File [104, 105] (1, 420)) \<and>
   lookup (replica w_meta) [''a.txt''] = Some (File [104, 105] (9, 384)) \<and>
   \<not> read_fails no_faults Source [''a.txt''] \<and> \<not> read_fails no_faults Replica [''a.txt''] \<and>
   copies [''a.txt''] w_meta' = copies [''a.txt''] w_meta \<and>
   \<not> path_exists (replica w_meta) [''new.txt''] \<and>
   copies [''new.txt''] w_meta' = copies [''new.txt''] w_meta + 1"
proof -
  have h1: "wf_tree (source w_meta)" by (simp add: w_meta_def)
  have h2: "is_Dir (source w_meta)" by (simp add: w_meta_def)
  have h3: "\<forall>p. \<not> scandir_fails no_faults Source p" by (simp add: no_faults_def)
  have h5: "isfile (source w_meta) [''a.txt'']" by (simp add: w_meta_def isfile_def entry_at_def)
  have h6: "isfile (source w_meta) [''new.txt'']" by (simp add: w_meta_def isfile_def entry_at_def)
  have l1: "lookup (source w_meta) [''a.txt''] = Some (File [104, 105] (1, 420))"
    by (simp add: w_meta_def)
  have l2: "lookup (replica w_meta) [''a.txt''] = Some (File [104, 105] (9, 384))"
    by (simp add: w_meta_def)
  have r: "\<not> read_fails no_faults Source [''a.txt''] \<and> \<not> read_fails no_faults Replica [''a.txt'']"
    by (simp add: no_faults_def)
  have n: "\<not> path_exists (replica w_meta) [''new.txt'']" by (simp add: w_meta_def path_exists_def)
  from copy_condition[OF h1 h2 h3 add_w_meta h5] l1 l2 r
  have a: "copies [''a.txt''] w_meta' = copies [''a.txt''] w_meta" by blast
  from copy_condition[OF h1 h2 h3 add_w_meta h6] n
  have b: "copies [''new.txt''] w_meta' = copies [''new.txt''] w_meta + 1" by simp
  from a b h1 h2 h3 add_w_meta h5 h6 l1 l2 r n show ?thesis by blast
qed

end
